theory Spec2Isabelle
  imports Complex_Main "HOL-Library.Word" "HOL-Library.Monad_Syntax" "HOL-Library.Multiset"
    "HOL-Library.Sublist"
begin

section \<open>Overdraw optimizer: shallow embedding of overdrawoptimizer.cpp\<close>

text \<open>
  Conventions of the embedding.
  \<^item> \<open>unsigned int\<close> is \<open>32 word\<close>: addition, subtraction and multiplication wrap, and
    the conversion \<open>unsigned(i)\<close> of a \<open>size_t\<close> is \<open>of_nat i\<close> (truncation).
  \<^item> \<open>size_t\<close> is \<open>nat\<close>: every \<open>size_t\<close> value the code computes is a position in
    a buffer or a count bounded by \<open>index_count + 1\<close>.
  \<^item> \<open>float\<close> is a type parameter \<open>'f\<close> with its operations in a record, so every theorem
    holds for any floating-point semantics, IEEE 754 included.
  \<^item> A buffer is a list. A read or write outside the buffer and a failed \<open>assert\<close> are
    the value \<open>None\<close>; loops are recursive functions over the loop counter.
\<close>

type_synonym u32 = "32 word"

definition rd :: "'a list \<Rightarrow> nat \<Rightarrow> 'a option" where
  "rd xs i = (if i < length xs then Some (xs ! i) else None)"

definition wr :: "'a list \<Rightarrow> nat \<Rightarrow> 'a \<Rightarrow> 'a list option" where
  "wr xs i v = (if i < length xs then Some (xs[i := v]) else None)"

definition assert_that :: "bool \<Rightarrow> unit option" where
  "assert_that b = (if b then Some () else None)"

record 'f float_ops =
  f_of_int :: "int \<Rightarrow> 'f"
  f_of_u32 :: "u32 \<Rightarrow> 'f"
  f_of_size :: "nat \<Rightarrow> 'f"
  f_add :: "'f \<Rightarrow> 'f \<Rightarrow> 'f"
  f_sub :: "'f \<Rightarrow> 'f \<Rightarrow> 'f"
  f_mul :: "'f \<Rightarrow> 'f \<Rightarrow> 'f"
  f_div :: "'f \<Rightarrow> 'f \<Rightarrow> 'f"
  f_sqrt :: "'f \<Rightarrow> 'f"
  f_eq :: "'f \<Rightarrow> 'f \<Rightarrow> bool"
  f_le :: "'f \<Rightarrow> 'f \<Rightarrow> bool"

subsection \<open>updateCache\<close>

definition updateCache ::
  "u32 \<Rightarrow> u32 \<Rightarrow> u32 \<Rightarrow> u32 \<Rightarrow> u32 list \<Rightarrow> u32 \<Rightarrow> (u32 \<times> u32 list \<times> u32) option" where
  "updateCache a b c cache_size cache_timestamps timestamp = do {
     let cache_misses = (0 :: u32);
     ta \<leftarrow> rd cache_timestamps (unat a);
     (cache_timestamps, timestamp, cache_misses) \<leftarrow>
       (if timestamp - ta > cache_size
        then do {
          ts \<leftarrow> wr cache_timestamps (unat a) timestamp;
          Some (ts, timestamp + 1, cache_misses + 1) }
        else Some (cache_timestamps, timestamp, cache_misses));
     tb \<leftarrow> rd cache_timestamps (unat b);
     (cache_timestamps, timestamp, cache_misses) \<leftarrow>
       (if timestamp - tb > cache_size
        then do {
          ts \<leftarrow> wr cache_timestamps (unat b) timestamp;
          Some (ts, timestamp + 1, cache_misses + 1) }
        else Some (cache_timestamps, timestamp, cache_misses));
     tc \<leftarrow> rd cache_timestamps (unat c);
     (cache_timestamps, timestamp, cache_misses) \<leftarrow>
       (if timestamp - tc > cache_size
        then do {
          ts \<leftarrow> wr cache_timestamps (unat c) timestamp;
          Some (ts, timestamp + 1, cache_misses + 1) }
        else Some (cache_timestamps, timestamp, cache_misses));
     Some (cache_misses, cache_timestamps, timestamp) }"

subsection \<open>generateHardBoundaries\<close>

function hard_loop ::
  "u32 list \<Rightarrow> u32 \<Rightarrow> nat \<Rightarrow> nat \<Rightarrow> u32 list \<times> nat \<times> u32 list \<times> u32
     \<Rightarrow> (u32 list \<times> nat \<times> u32 list \<times> u32) option" where
  "hard_loop indices cache_size face_count i (destination, result, cache_timestamps, timestamp) =
     (if i < face_count then do {
        a \<leftarrow> rd indices (i * 3 + 0);
        b \<leftarrow> rd indices (i * 3 + 1);
        c \<leftarrow> rd indices (i * 3 + 2);
        (m, cache_timestamps, timestamp) \<leftarrow> updateCache a b c cache_size cache_timestamps timestamp;
        (destination, result) \<leftarrow>
          (if i = 0 \<or> m = 3
           then do { d \<leftarrow> wr destination result (of_nat i); Some (d, result + 1) }
           else Some (destination, result));
        hard_loop indices cache_size face_count (i + 1) (destination, result, cache_timestamps, timestamp) }
      else Some (destination, result, cache_timestamps, timestamp))"
  by pat_completeness auto
termination
  by (relation "measure (\<lambda>(indices, cache_size, face_count, i, s). face_count - i)") auto

definition generateHardBoundaries ::
  "u32 list \<Rightarrow> u32 list \<Rightarrow> nat \<Rightarrow> nat \<Rightarrow> u32 \<Rightarrow> (u32 list \<times> nat) option" where
  "generateHardBoundaries destination indices index_count vertex_count cache_size = do {
     let cache_timestamps = replicate vertex_count (0 :: u32);
     let timestamp = cache_size + 1;
     let face_count = index_count div 3;
     let result = 0;
     (destination, result, cache_timestamps, timestamp) \<leftarrow>
       hard_loop indices cache_size face_count 0 (destination, result, cache_timestamps, timestamp);
     assert_that (result \<le> index_count div 3);
     Some (destination, result) }"

subsection \<open>generateSoftBoundaries\<close>

function soft_measure_loop ::
  "u32 list \<Rightarrow> u32 \<Rightarrow> nat \<Rightarrow> nat \<Rightarrow> u32 \<times> u32 list \<times> u32 \<Rightarrow> (u32 \<times> u32 list \<times> u32) option" where
  "soft_measure_loop indices cache_size end i (cluster_misses, cache_timestamps, timestamp) =
     (if i < end then do {
        a \<leftarrow> rd indices (i * 3 + 0);
        b \<leftarrow> rd indices (i * 3 + 1);
        c \<leftarrow> rd indices (i * 3 + 2);
        (m, cache_timestamps, timestamp) \<leftarrow> updateCache a b c cache_size cache_timestamps timestamp;
        soft_measure_loop indices cache_size end (i + 1) (cluster_misses + m, cache_timestamps, timestamp) }
      else Some (cluster_misses, cache_timestamps, timestamp))"
  by pat_completeness auto
termination
  by (relation "measure (\<lambda>(indices, cache_size, end, i, s). end - i)") auto

function soft_walk_loop ::
  "'f float_ops \<Rightarrow> u32 list \<Rightarrow> u32 \<Rightarrow> 'f \<Rightarrow> nat \<Rightarrow> nat
     \<Rightarrow> u32 list \<times> nat \<times> u32 \<times> u32 \<times> u32 list \<times> u32
     \<Rightarrow> (u32 list \<times> nat \<times> u32 \<times> u32 \<times> u32 list \<times> u32) option" where
  "soft_walk_loop F indices cache_size cluster_threshold end i
       (destination, result, running_misses, running_faces, cache_timestamps, timestamp) =
     (if i < end then do {
        a \<leftarrow> rd indices (i * 3 + 0);
        b \<leftarrow> rd indices (i * 3 + 1);
        c \<leftarrow> rd indices (i * 3 + 2);
        (m, cache_timestamps, timestamp) \<leftarrow> updateCache a b c cache_size cache_timestamps timestamp;
        let running_misses = running_misses + m;
        let running_faces = running_faces + 1;
        s \<leftarrow>
          (if f_le F (f_div F (f_of_u32 F running_misses) (f_of_u32 F running_faces)) cluster_threshold
           then do {
             d \<leftarrow> wr destination result (of_nat (i + 1));
             Some (d, result + 1, 0, 0, cache_timestamps, timestamp + (cache_size + 1)) }
           else Some (destination, result, running_misses, running_faces, cache_timestamps, timestamp));
        soft_walk_loop F indices cache_size cluster_threshold end (i + 1) s }
      else Some (destination, result, running_misses, running_faces, cache_timestamps, timestamp))"
  by pat_completeness auto
termination
  by (relation "measure (\<lambda>(F, indices, cache_size, thr, end, i, s). end - i)") auto

definition soft_region ::
  "'f float_ops \<Rightarrow> u32 list \<Rightarrow> nat \<Rightarrow> u32 list \<Rightarrow> nat \<Rightarrow> u32 \<Rightarrow> 'f \<Rightarrow> nat
     \<Rightarrow> u32 list \<times> nat \<times> u32 list \<times> u32
     \<Rightarrow> (u32 list \<times> nat \<times> u32 list \<times> u32) option" where
  "soft_region F indices index_count clusters cluster_count cache_size threshold it st =
     (case st of (destination, result, cache_timestamps, timestamp) \<Rightarrow> do {
        s \<leftarrow> rd clusters it;
        let start = unat s;
        end \<leftarrow> (if it + 1 < cluster_count
                 then do { e \<leftarrow> rd clusters (it + 1); Some (unat e) }
                 else Some (index_count div 3));
        assert_that (start < end);
        let timestamp = timestamp + (cache_size + 1);
        let cluster_misses = 0;
        (cluster_misses, cache_timestamps, timestamp) \<leftarrow>
          soft_measure_loop indices cache_size end start (cluster_misses, cache_timestamps, timestamp);
        let cluster_threshold =
          f_mul F threshold (f_div F (f_of_u32 F cluster_misses) (f_of_size F (end - start)));
        destination \<leftarrow> wr destination result (of_nat start);
        let result = result + 1;
        let timestamp = timestamp + (cache_size + 1);
        let running_misses = 0;
        let running_faces = 0;
        (destination, result, running_misses, running_faces, cache_timestamps, timestamp) \<leftarrow>
          soft_walk_loop F indices cache_size cluster_threshold end start
            (destination, result, running_misses, running_faces, cache_timestamps, timestamp);
        last_boundary \<leftarrow> rd destination (result - 1);
        let result = (if unat last_boundary \<noteq> start then result - 1 else result);
        Some (destination, result, cache_timestamps, timestamp) })"

function soft_region_loop ::
  "'f float_ops \<Rightarrow> u32 list \<Rightarrow> nat \<Rightarrow> u32 list \<Rightarrow> nat \<Rightarrow> u32 \<Rightarrow> 'f \<Rightarrow> nat
     \<Rightarrow> u32 list \<times> nat \<times> u32 list \<times> u32
     \<Rightarrow> (u32 list \<times> nat \<times> u32 list \<times> u32) option" where
  "soft_region_loop F indices index_count clusters cluster_count cache_size threshold it st =
     (if it < cluster_count then do {
        st \<leftarrow> soft_region F indices index_count clusters cluster_count cache_size threshold it st;
        soft_region_loop F indices index_count clusters cluster_count cache_size threshold (it + 1) st }
      else Some st)"
  by pat_completeness auto
termination
  by (relation "measure (\<lambda>(F, indices, index_count, clusters, cluster_count, cache_size, thr, it, s).
        cluster_count - it)") auto

definition generateSoftBoundaries ::
  "'f float_ops \<Rightarrow> u32 list \<Rightarrow> u32 list \<Rightarrow> nat \<Rightarrow> nat \<Rightarrow> u32 list \<Rightarrow> nat \<Rightarrow> u32 \<Rightarrow> 'f
     \<Rightarrow> (u32 list \<times> nat) option" where
  "generateSoftBoundaries F destination indices index_count vertex_count clusters cluster_count
       cache_size threshold = do {
     let cache_timestamps = replicate vertex_count (0 :: u32);
     let timestamp = (0 :: u32);
     let result = 0;
     (destination, result, cache_timestamps, timestamp) \<leftarrow>
       soft_region_loop F indices index_count clusters cluster_count cache_size threshold 0
         (destination, result, cache_timestamps, timestamp);
     assert_that (result \<ge> cluster_count);
     assert_that (result \<le> index_count div 3);
     Some (destination, result) }"

subsection \<open>calculateSortData\<close>

record 'f ClusterSortData =
  cluster :: u32
  dot_product :: 'f

text \<open>The three floats \<open>p[0], p[1], p[2]\<close> behind a position pointer \<open>p\<close>.\<close>

definition rd3 :: "'f list \<Rightarrow> nat \<Rightarrow> ('f \<times> 'f \<times> 'f) option" where
  "rd3 vertex_positions p = do {
     x \<leftarrow> rd vertex_positions (p + 0);
     y \<leftarrow> rd vertex_positions (p + 1);
     z \<leftarrow> rd vertex_positions (p + 2);
     Some (x, y, z) }"

function centroid_loop ::
  "'f float_ops \<Rightarrow> u32 list \<Rightarrow> nat \<Rightarrow> 'f list \<Rightarrow> nat \<Rightarrow> nat \<Rightarrow> 'f \<times> 'f \<times> 'f
     \<Rightarrow> ('f \<times> 'f \<times> 'f) option" where
  "centroid_loop F indices index_count vertex_positions vertex_stride_float i mesh_centroid =
     (if i < index_count then do {
        v \<leftarrow> rd indices i;
        (p0, p1, p2) \<leftarrow> rd3 vertex_positions (vertex_stride_float * unat v);
        let (m0, m1, m2) = mesh_centroid;
        centroid_loop F indices index_count vertex_positions vertex_stride_float (i + 1)
          (f_add F m0 p0, f_add F m1 p1, f_add F m2 p2) }
      else Some mesh_centroid)"
  by pat_completeness auto
termination
  by (relation "measure (\<lambda>(F, indices, index_count, vp, vsf, i, s). index_count - i)") auto

function cluster_tri_loop ::
  "'f float_ops \<Rightarrow> u32 list \<Rightarrow> 'f list \<Rightarrow> nat \<Rightarrow> nat \<Rightarrow> nat
     \<Rightarrow> 'f \<times> ('f \<times> 'f \<times> 'f) \<times> ('f \<times> 'f \<times> 'f)
     \<Rightarrow> ('f \<times> ('f \<times> 'f \<times> 'f) \<times> ('f \<times> 'f \<times> 'f)) option" where
  "cluster_tri_loop F indices vertex_positions vertex_stride_float cluster_end i acc =
     (if i < cluster_end then do {
        let (cluster_area, (c0, c1, c2), (n0, n1, n2)) = acc;
        v0 \<leftarrow> rd indices (i + 0);
        v1 \<leftarrow> rd indices (i + 1);
        v2 \<leftarrow> rd indices (i + 2);
        (p0x, p0y, p0z) \<leftarrow> rd3 vertex_positions (vertex_stride_float * unat v0);
        (p1x, p1y, p1z) \<leftarrow> rd3 vertex_positions (vertex_stride_float * unat v1);
        (p2x, p2y, p2z) \<leftarrow> rd3 vertex_positions (vertex_stride_float * unat v2);
        let (p10x, p10y, p10z) = (f_sub F p1x p0x, f_sub F p1y p0y, f_sub F p1z p0z);
        let (p20x, p20y, p20z) = (f_sub F p2x p0x, f_sub F p2y p0y, f_sub F p2z p0z);
        let normalx = f_sub F (f_mul F p10y p20z) (f_mul F p10z p20y);
        let normaly = f_sub F (f_mul F p10z p20x) (f_mul F p10x p20z);
        let normalz = f_sub F (f_mul F p10x p20y) (f_mul F p10y p20x);
        let area = f_sqrt F (f_add F (f_add F (f_mul F normalx normalx) (f_mul F normaly normaly))
                                     (f_mul F normalz normalz));
        let w = f_div F area (f_of_int F 3);
        cluster_tri_loop F indices vertex_positions vertex_stride_float cluster_end (i + 3)
          (f_add F cluster_area area,
           (f_add F c0 (f_mul F (f_add F (f_add F p0x p1x) p2x) w),
            f_add F c1 (f_mul F (f_add F (f_add F p0y p1y) p2y) w),
            f_add F c2 (f_mul F (f_add F (f_add F p0z p1z) p2z) w)),
           (f_add F n0 normalx, f_add F n1 normaly, f_add F n2 normalz)) }
      else Some acc)"
  by pat_completeness auto
termination
  by (relation "measure (\<lambda>(F, indices, vp, vsf, cluster_end, i, s). cluster_end - i)") auto

text \<open>Lines 80 to 96: the score of one cluster from its accumulated area, centroid and normal.\<close>

definition cluster_score ::
  "'f float_ops \<Rightarrow> 'f \<times> 'f \<times> 'f \<Rightarrow> 'f \<times> ('f \<times> 'f \<times> 'f) \<times> ('f \<times> 'f \<times> 'f) \<Rightarrow> 'f" where
  "cluster_score F mesh_centroid acc =
     (let (m0, m1, m2) = mesh_centroid;
          (cluster_area, (c0, c1, c2), (n0, n1, n2)) = acc;
          inv_cluster_area =
            (if f_eq F cluster_area (f_of_int F 0) then f_of_int F 0
             else f_div F (f_of_int F 1) cluster_area);
          (c0, c1, c2) = (f_mul F c0 inv_cluster_area, f_mul F c1 inv_cluster_area,
                          f_mul F c2 inv_cluster_area);
          cluster_normal_length =
            f_sqrt F (f_add F (f_add F (f_mul F n0 n0) (f_mul F n1 n1)) (f_mul F n2 n2));
          inv_cluster_normal_length =
            (if f_eq F cluster_normal_length (f_of_int F 0) then f_of_int F 0
             else f_div F (f_of_int F 1) cluster_normal_length);
          (n0, n1, n2) = (f_mul F n0 inv_cluster_normal_length, f_mul F n1 inv_cluster_normal_length,
                          f_mul F n2 inv_cluster_normal_length);
          (v0, v1, v2) = (f_sub F c0 m0, f_sub F c1 m1, f_sub F c2 m2)
      in f_add F (f_add F (f_mul F v0 n0) (f_mul F v1 n1)) (f_mul F v2 n2))"

function sort_cluster_loop ::
  "'f float_ops \<Rightarrow> u32 list \<Rightarrow> nat \<Rightarrow> 'f list \<Rightarrow> nat \<Rightarrow> u32 list \<Rightarrow> nat \<Rightarrow> 'f \<times> 'f \<times> 'f \<Rightarrow> nat
     \<Rightarrow> 'f ClusterSortData list \<Rightarrow> 'f ClusterSortData list option" where
  "sort_cluster_loop F indices index_count vertex_positions vertex_stride_float clusters cluster_count
       mesh_centroid cl sort_data =
     (if cl < cluster_count then do {
        b \<leftarrow> rd clusters cl;
        let cluster_begin = unat (b * 3);
        cluster_end \<leftarrow> (if cluster_count > cl + 1
                         then do { e \<leftarrow> rd clusters (cl + 1); Some (unat (e * 3)) }
                         else Some index_count);
        assert_that (cluster_begin < cluster_end);
        let z = f_of_int F 0;
        acc \<leftarrow> cluster_tri_loop F indices vertex_positions vertex_stride_float cluster_end cluster_begin
                 (z, (z, z, z), (z, z, z));
        sort_data \<leftarrow> wr sort_data cl
          \<lparr>cluster = of_nat cl, dot_product = cluster_score F mesh_centroid acc\<rparr>;
        sort_cluster_loop F indices index_count vertex_positions vertex_stride_float clusters
          cluster_count mesh_centroid (cl + 1) sort_data }
      else Some sort_data)"
  by pat_completeness auto
termination
  by (relation "measure (\<lambda>(F, indices, index_count, vp, vsf, clusters, cluster_count, mc, cl, s).
        cluster_count - cl)") auto

definition calculateSortData ::
  "'f float_ops \<Rightarrow> 'f ClusterSortData list \<Rightarrow> u32 list \<Rightarrow> nat \<Rightarrow> 'f list \<Rightarrow> nat \<Rightarrow> u32 list \<Rightarrow> nat
     \<Rightarrow> 'f ClusterSortData list option" where
  "calculateSortData F sort_data indices index_count vertex_positions vertex_positions_stride
       clusters cluster_count = do {
     let vertex_stride_float = vertex_positions_stride div 4;
     let z = f_of_int F 0;
     (m0, m1, m2) \<leftarrow>
       centroid_loop F indices index_count vertex_positions vertex_stride_float 0 (z, z, z);
     let n = f_of_size F index_count;
     let mesh_centroid = (f_div F m0 n, f_div F m1 n, f_div F m2 n);
     sort_cluster_loop F indices index_count vertex_positions vertex_stride_float clusters
       cluster_count mesh_centroid 0 sort_data }"

subsection \<open>meshopt_optimizeOverdraw\<close>

text \<open>
  Caller memory is a store from buffer addresses to index buffers, so that
  \<open>destination == indices\<close> is a comparison of addresses. After the in-place guard the
  code reads its indices either from the local snapshot or from the caller's buffer.
\<close>

type_synonym store = "nat \<Rightarrow> u32 list"

datatype index_source = Snapshot "u32 list" | Caller nat

fun source_buffer :: "store \<Rightarrow> index_source \<Rightarrow> u32 list" where
  "source_buffer mem (Snapshot xs) = xs"
| "source_buffer mem (Caller p) = mem p"

definition put :: "store \<Rightarrow> nat \<Rightarrow> nat \<Rightarrow> u32 \<Rightarrow> store option" where
  "put mem p i v = do { d \<leftarrow> wr (mem p) i v; Some (mem(p := d)) }"

function copy_tri_loop ::
  "index_source \<Rightarrow> nat \<Rightarrow> nat \<Rightarrow> nat \<Rightarrow> store \<times> nat \<Rightarrow> (store \<times> nat) option" where
  "copy_tri_loop src destination end i (mem, offset) =
     (if i < end then do {
        v0 \<leftarrow> rd (source_buffer mem src) (3 * i + 0);
        mem \<leftarrow> put mem destination offset v0;
        let offset = offset + 1;
        v1 \<leftarrow> rd (source_buffer mem src) (3 * i + 1);
        mem \<leftarrow> put mem destination offset v1;
        let offset = offset + 1;
        v2 \<leftarrow> rd (source_buffer mem src) (3 * i + 2);
        mem \<leftarrow> put mem destination offset v2;
        let offset = offset + 1;
        copy_tri_loop src destination end (i + 1) (mem, offset) }
      else Some (mem, offset))"
  by pat_completeness auto
termination
  by (relation "measure (\<lambda>(src, destination, end, i, s). end - i)") auto

function copy_cluster_loop ::
  "'f ClusterSortData list \<Rightarrow> u32 list \<Rightarrow> nat \<Rightarrow> nat \<Rightarrow> index_source \<Rightarrow> nat \<Rightarrow> nat
     \<Rightarrow> store \<times> nat \<Rightarrow> (store \<times> nat) option" where
  "copy_cluster_loop sort_data clusters cluster_count index_count src destination it (mem, offset) =
     (if it < cluster_count then do {
        sd \<leftarrow> rd sort_data it;
        let cl = cluster sd;
        assert_that (unat cl < cluster_count);
        s \<leftarrow> rd clusters (unat cl);
        let start = unat s;
        end \<leftarrow> (if unat (cl + 1) < cluster_count
                 then do { e \<leftarrow> rd clusters (unat (cl + 1)); Some (unat e) }
                 else Some (index_count div 3));
        assert_that (start < end);
        (mem, offset) \<leftarrow> copy_tri_loop src destination end start (mem, offset);
        copy_cluster_loop sort_data clusters cluster_count index_count src destination (it + 1)
          (mem, offset) }
      else Some (mem, offset))"
  by pat_completeness auto
termination
  by (relation "measure (\<lambda>(sd, clusters, cluster_count, index_count, src, destination, it, s).
        cluster_count - it)") auto

text \<open>
  \<open>std_sort\<close> stands for \<open>std::sort\<close> with \<open>ClusterSortData::operator<\<close>: the standard
  library's code, taken as a parameter.
\<close>

definition meshopt_optimizeOverdraw ::
  "'f float_ops \<Rightarrow> ('f ClusterSortData list \<Rightarrow> 'f ClusterSortData list) \<Rightarrow> store
     \<Rightarrow> nat \<Rightarrow> nat \<Rightarrow> nat \<Rightarrow> 'f list \<Rightarrow> nat \<Rightarrow> nat \<Rightarrow> u32 \<Rightarrow> 'f \<Rightarrow> store option" where
  "meshopt_optimizeOverdraw F std_sort mem destination indices index_count vertex_positions
       vertex_count vertex_positions_stride cache_size threshold = do {
     assert_that (index_count mod 3 = 0);
     assert_that (vertex_positions_stride > 0 \<and> vertex_positions_stride \<le> 256);
     assert_that (vertex_positions_stride mod 4 = 0);
     assert_that (cache_size \<ge> 3);
     if index_count = 0 \<or> vertex_count = 0 then Some mem
     else do {
       src \<leftarrow> (if destination = indices
                then do {
                  assert_that (index_count \<le> length (mem indices));
                  Some (Snapshot (take index_count (mem indices))) }
                else Some (Caller indices));
       let hard_clusters = replicate (index_count div 3) (0 :: u32);
       (hard_clusters, hard_cluster_count) \<leftarrow>
         generateHardBoundaries hard_clusters (source_buffer mem src) index_count vertex_count cache_size;
       let soft_clusters = replicate (index_count div 3 + 1) (0 :: u32);
       (soft_clusters, soft_cluster_count) \<leftarrow>
         generateSoftBoundaries F soft_clusters (source_buffer mem src) index_count vertex_count
           hard_clusters hard_cluster_count cache_size threshold;
       let clusters = soft_clusters;
       let cluster_count = soft_cluster_count;
       let sort_data = replicate cluster_count \<lparr>cluster = 0, dot_product = f_of_int F 0\<rparr>;
       sort_data \<leftarrow> calculateSortData F sort_data (source_buffer mem src) index_count vertex_positions
                      vertex_positions_stride clusters cluster_count;
       let sort_data = std_sort sort_data;
       let offset = 0;
       (mem, offset) \<leftarrow> copy_cluster_loop sort_data clusters cluster_count index_count src destination 0
                          (mem, offset);
       assert_that (offset = index_count);
       Some mem } }"

section \<open>Reference definitions for the specification\<close>

subsection \<open>The cache rule of the data model\<close>

text \<open>
  A vertex is a hit iff \<open>timestamp - last_used[v] \<le> cache_size\<close> (unsigned arithmetic).
  Testing a vertex leaves the state alone on a hit; on a miss it stores the current timestamp
  for the vertex, advances the timestamp by one and counts one miss.
\<close>

definition cache_hit :: "u32 \<Rightarrow> u32 list \<Rightarrow> u32 \<Rightarrow> u32 \<Rightarrow> bool" where
  "cache_hit cache_size last_used timestamp v \<longleftrightarrow> timestamp - last_used ! unat v \<le> cache_size"

definition test_vertex :: "u32 \<Rightarrow> u32 \<Rightarrow> u32 list \<times> u32 \<times> nat \<Rightarrow> (u32 list \<times> u32 \<times> nat) option" where
  "test_vertex cache_size v st =
     (case st of (last_used, timestamp, misses) \<Rightarrow>
        if unat v < length last_used
        then Some (if cache_hit cache_size last_used timestamp v
                   then (last_used, timestamp, misses)
                   else (last_used[unat v := timestamp], timestamp + 1, misses + 1))
        else None)"

subsection \<open>Triangles and cache simulation over a run of triangles\<close>

definition triangle_at :: "u32 list \<Rightarrow> nat \<Rightarrow> u32 \<times> u32 \<times> u32" where
  "triangle_at indices i = (indices ! (3 * i), indices ! (3 * i + 1), indices ! (3 * i + 2))"

definition triangles_between :: "u32 list \<Rightarrow> nat \<Rightarrow> nat \<Rightarrow> (u32 \<times> u32 \<times> u32) list" where
  "triangles_between indices start end = map (triangle_at indices) [start..<end]"

definition triangles :: "u32 list \<Rightarrow> nat \<Rightarrow> (u32 \<times> u32 \<times> u32) list" where
  "triangles indices index_count = triangles_between indices 0 (index_count div 3)"

definition valid_indices :: "u32 list \<Rightarrow> nat \<Rightarrow> nat \<Rightarrow> bool" where
  "valid_indices indices index_count vertex_count \<longleftrightarrow>
     index_count \<le> length indices \<and>
     list_all (\<lambda>v. unat v < vertex_count) (take index_count indices)"

text \<open>One cache simulation over a list of triangles: the miss count of each and the final cache.\<close>

fun simulate ::
  "u32 \<Rightarrow> (u32 \<times> u32 \<times> u32) list \<Rightarrow> u32 list \<times> u32 \<Rightarrow> (u32 list \<times> u32 list \<times> u32) option" where
  "simulate cache_size [] (ts, t) = Some ([], ts, t)"
| "simulate cache_size ((a, b, c) # tris) (ts, t) = do {
     (m, ts, t) \<leftarrow> updateCache a b c cache_size ts t;
     (ms, ts, t) \<leftarrow> simulate cache_size tris (ts, t);
     Some (m # ms, ts, t) }"

text \<open>
  The second walk over a region, as the specification words it: the boundaries emitted while
  walking the triangles \<open>tris\<close>, the first of which is triangle \<open>i\<close>, with the running miss and
  triangle counters; an emission resets both counters and the cache.
\<close>

fun walk_emits ::
  "'f float_ops \<Rightarrow> u32 \<Rightarrow> 'f \<Rightarrow> (u32 \<times> u32 \<times> u32) list \<Rightarrow> nat \<Rightarrow> u32 \<times> u32 \<times> u32 list \<times> u32
     \<Rightarrow> (nat list \<times> u32 \<times> u32 \<times> u32 list \<times> u32) option" where
  "walk_emits F cache_size cluster_threshold [] i (rm, rf, ts, t) = Some ([], rm, rf, ts, t)"
| "walk_emits F cache_size cluster_threshold ((a, b, c) # tris) i (rm, rf, ts, t) = do {
     (m, ts, t) \<leftarrow> updateCache a b c cache_size ts t;
     let rm = rm + m;
     let rf = rf + 1;
     if f_le F (f_div F (f_of_u32 F rm) (f_of_u32 F rf)) cluster_threshold
     then do {
       (es, st) \<leftarrow> walk_emits F cache_size cluster_threshold tris (i + 1)
                     (0, 0, ts, t + (cache_size + 1));
       Some ((i + 1) # es, st) }
     else walk_emits F cache_size cluster_threshold tris (i + 1) (rm, rf, ts, t) }"

text \<open>
  One of the three conditional blocks of \<open>updateCache\<close> (lines 105 to 109), on the state
  \<open>(cache_timestamps, timestamp, cache_misses)\<close>.
\<close>

definition cache_block :: "u32 \<Rightarrow> u32 \<Rightarrow> u32 list \<times> u32 \<times> u32 \<Rightarrow> (u32 list \<times> u32 \<times> u32) option" where
  "cache_block cache_size v st =
     (case st of (ts, t, m) \<Rightarrow>
        rd ts (unat v) \<bind>
          (\<lambda>tv. if cache_size < t - tv
                then wr ts (unat v) t \<bind> (\<lambda>ts'. Some (ts', t + 1, m + 1))
                else Some (ts, t, m)))"

text \<open>
  The triangles recorded by the hard boundary rule, given the miss count of each triangle
  from \<open>i\<close> on: triangle 0, and every triangle with three misses.
\<close>

fun hard_marks :: "nat \<Rightarrow> u32 list \<Rightarrow> nat list" where
  "hard_marks i [] = []"
| "hard_marks i (m # ms) =
     (if i = 0 \<or> m = 3 then i # hard_marks (i + 1) ms else hard_marks (i + 1) ms)"

subsection \<open>Boundary lists\<close>

text \<open>
  Cluster \<open>it\<close> of a boundary list spans the triangles from \<open>cluster_start \<dots> it\<close> up to
  \<open>cluster_start \<dots> (it + 1)\<close>, the last cluster running to the triangle count (the
  expressions for \<open>start\<close> and \<open>end\<close> at lines 163 to 164 and 281 to 282).
\<close>

definition cluster_start :: "u32 list \<Rightarrow> nat \<Rightarrow> nat \<Rightarrow> nat \<Rightarrow> nat" where
  "cluster_start clusters cluster_count index_count it =
     (if it < cluster_count then unat (clusters ! it) else index_count div 3)"

text \<open>A boundary list read as numbers is strictly increasing and stays below a bound.\<close>

definition boundaries_ok :: "u32 list \<Rightarrow> nat \<Rightarrow> bool" where
  "boundaries_ok bs bound \<longleftrightarrow>
     sorted_wrt (<) (map unat bs) \<and> list_all (\<lambda>b. unat b < bound) bs"

text \<open>The index buffer holding a list of triangles, and the triangles of one cluster.\<close>

fun flatten_triangles :: "(u32 \<times> u32 \<times> u32) list \<Rightarrow> u32 list" where
  "flatten_triangles [] = []"
| "flatten_triangles ((a, b, c) # tris) = a # b # c # flatten_triangles tris"

definition cluster_triangles ::
  "u32 list \<Rightarrow> u32 list \<Rightarrow> nat \<Rightarrow> nat \<Rightarrow> nat \<Rightarrow> (u32 \<times> u32 \<times> u32) list" where
  "cluster_triangles indices clusters cluster_count index_count c =
     triangles_between indices (cluster_start clusters cluster_count index_count c)
       (cluster_start clusters cluster_count index_count (c + 1))"

subsection \<open>The score of a cluster\<close>

text \<open>
  The score as the specification words it: the dot product of (cluster centroid - mesh
  centroid) and the cluster normal, where the centroid sum is scaled by the inverse of the
  total area and the normal sum by the inverse of its length, each inverse being zero when
  the quantity it inverts is zero.
\<close>

definition inverse_or_zero :: "'f float_ops \<Rightarrow> 'f \<Rightarrow> 'f" where
  "inverse_or_zero F x =
     (if f_eq F x (f_of_int F 0) then f_of_int F 0 else f_div F (f_of_int F 1) x)"

definition scale3 :: "'f float_ops \<Rightarrow> 'f \<times> 'f \<times> 'f \<Rightarrow> 'f \<Rightarrow> 'f \<times> 'f \<times> 'f" where
  "scale3 F v k = (case v of (x, y, z) \<Rightarrow> (f_mul F x k, f_mul F y k, f_mul F z k))"

definition norm3 :: "'f float_ops \<Rightarrow> 'f \<times> 'f \<times> 'f \<Rightarrow> 'f" where
  "norm3 F v =
     (case v of (x, y, z) \<Rightarrow>
        f_sqrt F (f_add F (f_add F (f_mul F x x) (f_mul F y y)) (f_mul F z z)))"

definition dot_score :: "'f float_ops \<Rightarrow> 'f \<times> 'f \<times> 'f \<Rightarrow> 'f \<times> 'f \<times> 'f \<Rightarrow> 'f \<times> 'f \<times> 'f \<Rightarrow> 'f" where
  "dot_score F mesh_centroid centroid normal =
     (case (mesh_centroid, centroid, normal) of
        ((m0, m1, m2), (c0, c1, c2), (n0, n1, n2)) \<Rightarrow>
          f_add F (f_add F (f_mul F (f_sub F c0 m0) n0) (f_mul F (f_sub F c1 m1) n1))
                  (f_mul F (f_sub F c2 m2) n2))"

subsection \<open>A concrete arithmetic for worked examples\<close>

text \<open>
  Exact real arithmetic in the role of \<open>float\<close>. The worked examples below only divide and
  compare small integers with threshold 1, where single-precision arithmetic orders the
  quotients as the exact arithmetic does.
\<close>

definition exact_ops :: "real float_ops" where
  "exact_ops = \<lparr>f_of_int = of_int, f_of_u32 = (\<lambda>w. of_nat (unat w)), f_of_size = of_nat,
     f_add = (+), f_sub = (-), f_mul = (*), f_div = (/), f_sqrt = sqrt,
     f_eq = (=), f_le = (\<le>)\<rparr>"

text \<open>A sort by descending score, standing for \<open>std::sort\<close> in the worked examples.\<close>

definition sort_descending :: "real ClusterSortData list \<Rightarrow> real ClusterSortData list" where
  "sort_descending xs = rev (sort_key dot_product xs)"

section \<open>Properties\<close>

subsection \<open>Buffer accesses\<close>

lemma rd_Some [simp]: "i < length xs \<Longrightarrow> rd xs i = Some (xs ! i)"
  by (simp add: rd_def)

lemma wr_Some [simp]: "i < length xs \<Longrightarrow> wr xs i v = Some (xs[i := v])"
  by (simp add: wr_def)

lemma assert_that_True [simp]: "b \<Longrightarrow> assert_that b = Some ()"
  by (simp add: assert_that_def)

subsection \<open>updateCache\<close>

lemma updateCache_blocks:
  "updateCache a b c cs ts t =
     cache_block cs a (ts, t, 0) \<bind> cache_block cs b \<bind> cache_block cs c
       \<bind> (\<lambda>(ts, t, m). Some (m, ts, t))"
  unfolding updateCache_def cache_block_def Let_def
  by (simp only: Option.bind_assoc split_def prod.case fst_conv snd_conv)

lemma cache_block_test_vertex:
  "cache_block cs v (ts, t, of_nat n) =
     map_option (\<lambda>(ts, t, n). (ts, t, of_nat n)) (test_vertex cs v (ts, t, n))"
  by (auto simp add: cache_block_def test_vertex_def cache_hit_def rd_def wr_def
      simp del: rd_Some wr_Some)

lemma cache_block_Some:
  assumes "unat v < length ts"
  shows "\<exists>ts' t' m'. cache_block cs v (ts, t, m) = Some (ts', t', m') \<and> length ts' = length ts"
  using assms by (simp add: cache_block_def)

lemma updateCache_Some:
  assumes "unat a < length ts" "unat b < length ts" "unat c < length ts"
  shows "\<exists>m ts' t'. updateCache a b c cs ts t = Some (m, ts', t') \<and> length ts' = length ts"
proof -
  obtain ts1 t1 m1 where 1: "cache_block cs a (ts, t, 0) = Some (ts1, t1, m1)" "length ts1 = length ts"
    using cache_block_Some [OF assms(1)] by blast
  obtain ts2 t2 m2 where 2: "cache_block cs b (ts1, t1, m1) = Some (ts2, t2, m2)" "length ts2 = length ts"
    using cache_block_Some [of b ts1] assms(2) 1(2) by metis
  obtain ts3 t3 m3 where 3: "cache_block cs c (ts2, t2, m2) = Some (ts3, t3, m3)" "length ts3 = length ts"
    using cache_block_Some [of c ts2] assms(3) 2(2) by metis
  show ?thesis
    by (simp add: updateCache_blocks 1 2 3)
qed

text \<open>
  C2. Processing a triangle \<open>(a, b, c)\<close> tests the three vertices in the order \<open>a\<close>, \<open>b\<close>,
  \<open>c\<close>, each test seeing the state left by the one before; a vertex is a hit iff
  \<open>timestamp - last_used[v] \<le> cache_size\<close>; a miss stores the current timestamp for the vertex
  and advances the timestamp by exactly one; the value returned is the number of misses
  among the three tests.
\<close>

theorem updateCache_three_tests:
  "updateCache a b c cache_size last_used timestamp = do {
     s1 \<leftarrow> test_vertex cache_size a (last_used, timestamp, 0);
     s2 \<leftarrow> test_vertex cache_size b s1;
     (last_used', timestamp', misses) \<leftarrow> test_vertex cache_size c s2;
     Some (of_nat misses, last_used', timestamp') }"
proof -
  have step: "map_option (\<lambda>(ts, t, n). (ts, t, of_nat n)) x \<bind> cache_block cs v
      = map_option (\<lambda>(ts, t, n). (ts, t, of_nat n)) (x \<bind> test_vertex cs v)" for x cs v
    by (cases x) (auto simp: cache_block_test_vertex)
  have "updateCache a b c cache_size last_used timestamp =
      map_option (\<lambda>(ts, t, n). (ts, t, of_nat n))
        (test_vertex cache_size a (last_used, timestamp, 0) \<bind> test_vertex cache_size b
           \<bind> test_vertex cache_size c) \<bind> (\<lambda>(ts, t, m). Some (m, ts, t))"
  proof -
    have "cache_block cache_size a (last_used, timestamp, 0) =
        map_option (\<lambda>(ts, t, n). (ts, t, of_nat n))
          (test_vertex cache_size a (last_used, timestamp, 0))"
      using cache_block_test_vertex [of cache_size a last_used timestamp 0] by simp
    then show ?thesis
      by (simp only: updateCache_blocks step)
  qed
  also have "\<dots> = (test_vertex cache_size a (last_used, timestamp, 0) \<bind> test_vertex cache_size b
           \<bind> test_vertex cache_size c) \<bind> (\<lambda>(ts, t, n). Some (of_nat n, ts, t))"
    by (cases "test_vertex cache_size a (last_used, timestamp, 0) \<bind> test_vertex cache_size b
           \<bind> test_vertex cache_size c") auto
  finally show ?thesis
    by (simp only: Option.bind_assoc)
qed

subsection \<open>Empty meshes\<close>

text \<open>
  C9. When \<open>index_count\<close> is 0 or \<open>vertex_count\<close> is 0 and the asserted preconditions hold,
  \<open>meshopt_optimizeOverdraw\<close> returns with caller memory, the destination buffer included,
  exactly as it was.
\<close>

theorem empty_mesh_untouched:
  assumes "index_count = 0 \<or> vertex_count = 0"
    and "index_count mod 3 = 0"
    and "0 < vertex_positions_stride" "vertex_positions_stride \<le> 256"
    and "vertex_positions_stride mod 4 = 0"
    and "3 \<le> cache_size"
  shows "meshopt_optimizeOverdraw F std_sort mem destination indices index_count vertex_positions
           vertex_count vertex_positions_stride cache_size threshold = Some mem"
  using assms by (simp add: meshopt_optimizeOverdraw_def)

theorem empty_mesh_untouched_witness:
  "meshopt_optimizeOverdraw exact_ops sort_descending (\<lambda>p. if p = 0 then [7, 8, 9] else [1, 2, 0])
     0 1 3 [] 0 12 16 1 = Some (\<lambda>p. if p = 0 then [7, 8, 9] else [1, 2, 0])"
  using empty_mesh_untouched [of 3 0 12 16 exact_ops sort_descending
      "\<lambda>p. if p = 0 then [7, 8, 9] else [1, 2, 0]" 0 1 "[]" 1]
  by simp

subsection \<open>Triangles of a valid index buffer\<close>

lemma triangles_between_step:
  "i < e \<Longrightarrow> triangles_between indices i e = triangle_at indices i # triangles_between indices (Suc i) e"
  by (simp add: triangles_between_def upt_conv_Cons)

lemma triangles_between_empty: "e \<le> i \<Longrightarrow> triangles_between indices i e = []"
  by (simp add: triangles_between_def)

lemma length_triangles_between [simp]: "length (triangles_between indices i e) = e - i"
  by (simp add: triangles_between_def)

lemma valid_indices_nth:
  assumes "valid_indices indices index_count vertex_count" and "j < index_count"
  shows "unat (indices ! j) < vertex_count"
proof -
  have "j < length (take index_count indices)"
    using assms by (simp add: valid_indices_def)
  moreover have "list_all (\<lambda>v. unat v < vertex_count) (take index_count indices)"
    using assms(1) by (simp add: valid_indices_def)
  ultimately have "unat (take index_count indices ! j) < vertex_count"
    by (simp only: list_all_length)
  then show ?thesis using assms(2) by simp
qed

text \<open>Reading triangle i of a valid index buffer and running the cache step on it.\<close>

lemma triangle_step:
  assumes v: "valid_indices indices index_count (length ts)"
    and e: "e * 3 \<le> index_count" and i: "i < e"
  shows "\<exists>a b c m ts' t'. triangle_at indices i = (a, b, c)
      \<and> rd indices (i * 3 + 0) = Some a \<and> rd indices (i * 3 + 1) = Some b \<and> rd indices (i * 3 + 2) = Some c
      \<and> updateCache a b c cs ts t = Some (m, ts', t') \<and> length ts' = length ts"
proof -
  have lt: "i * 3 + 2 < index_count" using e i by arith
  have len: "index_count \<le> length indices"
    and ok: "\<And>j. j < index_count \<Longrightarrow> unat (indices ! j) < length ts"
    using v by (auto simp: valid_indices_nth) (simp add: valid_indices_def)
  have r: "i * 3 < length indices" "i * 3 + 1 < length indices" "i * 3 + 2 < length indices"
    using lt len by arith+
  have b: "unat (indices ! (i * 3)) < length ts" "unat (indices ! (i * 3 + 1)) < length ts"
    "unat (indices ! (i * 3 + 2)) < length ts"
    using lt by (auto intro!: ok)
  obtain m ts' t' where "updateCache (indices ! (i * 3)) (indices ! (i * 3 + 1)) (indices ! (i * 3 + 2)) cs ts t
      = Some (m, ts', t')" "length ts' = length ts"
    using updateCache_Some [OF b] by blast
  then show ?thesis
    using r by (simp add: triangle_at_def mult.commute)
qed

subsection \<open>generateHardBoundaries\<close>

declare hard_loop.simps [simp del]

lemma length_hard_marks: "length (hard_marks i ms) \<le> length ms"
  by (induction ms arbitrary: i) (auto simp: le_SucI)

lemma simulate_length:
  "simulate cs tris st = Some (ms, ts', t') \<Longrightarrow> length ms = length tris"
proof (induction tris arbitrary: st ms ts' t')
  case Nil
  then show ?case by (cases st) simp
next
  case (Cons tri tris)
  obtain a b c where tri: "tri = (a, b, c)" by (cases tri)
  obtain ts t where st: "st = (ts, t)" by (cases st)
  from Cons.prems show ?case
    using Cons.IH by (fastforce simp: tri st split: bind_splits)
qed

lemma hard_loop_char:
  assumes v: "valid_indices indices index_count (length ts)"
    and e: "face_count * 3 \<le> index_count"
    and cap: "r + (face_count - i) \<le> length dest"
  shows "\<exists>ms ts' t' dest'.
      simulate cs (triangles_between indices i face_count) (ts, t) = Some (ms, ts', t')
    \<and> hard_loop indices cs face_count i (dest, r, ts, t) = Some (dest', r + length (hard_marks i ms), ts', t')
    \<and> length dest' = length dest
    \<and> take (r + length (hard_marks i ms)) dest' = take r dest @ map of_nat (hard_marks i ms)"
  using v cap
proof (induction "face_count - i" arbitrary: i dest r ts t)
  case 0
  then have "face_count \<le> i" by simp
  then show ?case
    by (simp add: triangles_between_empty hard_loop.simps)
next
  case (Suc n)
  then have i: "i < face_count" by arith
  obtain a b c m ts1 t1 where tri: "triangle_at indices i = (a, b, c)"
    and rds: "rd indices (i * 3 + 0) = Some a" "rd indices (i * 3 + 1) = Some b" "rd indices (i * 3 + 2) = Some c"
    and uc: "updateCache a b c cs ts t = Some (m, ts1, t1)" and len1: "length ts1 = length ts"
    using triangle_step [OF Suc.prems(1) e i, of cs t] by blast
  have v1: "valid_indices indices index_count (length ts1)" using Suc.prems(1) len1 by simp
  have n: "n = face_count - Suc i" using Suc.hyps(2) by arith
  have r: "r < length dest" using Suc.prems(2) i by arith
  show ?case
  proof (cases "i = 0 \<or> m = 3")
    case True
    have cap1: "Suc r + (face_count - Suc i) \<le> length (dest[r := of_nat i])"
      using Suc.prems(2) i by simp
    obtain ms ts' t' dest' where
      sim: "simulate cs (triangles_between indices (Suc i) face_count) (ts1, t1) = Some (ms, ts', t')"
      and loop: "hard_loop indices cs face_count (Suc i) (dest[r := of_nat i], Suc r, ts1, t1)
          = Some (dest', Suc r + length (hard_marks (Suc i) ms), ts', t')"
      and len: "length dest' = length (dest[r := of_nat i])"
      and tk: "take (Suc r + length (hard_marks (Suc i) ms)) dest'
          = take (Suc r) (dest[r := of_nat i]) @ map of_nat (hard_marks (Suc i) ms)"
      using Suc.hyps(1) [OF n v1 cap1] by blast
    have tk': "take (Suc r) (dest[r := of_nat i]) = take r dest @ [of_nat i]"
      using r by (simp add: take_Suc_conv_app_nth)
    have "hard_loop indices cs face_count i (dest, r, ts, t) =
        hard_loop indices cs face_count (Suc i) (dest[r := of_nat i], Suc r, ts1, t1)"
      using i rds uc True r by (subst hard_loop.simps) simp
    with sim loop len tk tk' True show ?thesis
      by (simp add: triangles_between_step [OF i] tri uc)
  next
    case False
    have cap1: "r + (face_count - Suc i) \<le> length dest"
      using Suc.prems(2) by arith
    obtain ms ts' t' dest' where
      sim: "simulate cs (triangles_between indices (Suc i) face_count) (ts1, t1) = Some (ms, ts', t')"
      and loop: "hard_loop indices cs face_count (Suc i) (dest, r, ts1, t1)
          = Some (dest', r + length (hard_marks (Suc i) ms), ts', t')"
      and len: "length dest' = length dest"
      and tk: "take (r + length (hard_marks (Suc i) ms)) dest'
          = take r dest @ map of_nat (hard_marks (Suc i) ms)"
      using Suc.hyps(1) [OF n v1 cap1] by blast
    have "hard_loop indices cs face_count i (dest, r, ts, t) =
        hard_loop indices cs face_count (Suc i) (dest, r, ts1, t1)"
      using i rds uc False by (subst hard_loop.simps) simp
    with sim loop len tk False show ?thesis
      by (simp add: triangles_between_step [OF i] tri uc)
  qed
qed

lemma hard_marks_filter_gen:
  "hard_marks i ms = filter (\<lambda>j. j = 0 \<or> ms ! (j - i) = 3) [i..<i + length ms]"
proof (induction ms arbitrary: i)
  case Nil
  then show ?case by simp
next
  case (Cons m ms)
  have eq: "filter (\<lambda>j. j = 0 \<or> (m # ms) ! (j - i) = 3) xs
      = filter (\<lambda>j. j = 0 \<or> ms ! (j - Suc i) = 3) xs" if "\<forall>j \<in> set xs. Suc i \<le> j" for xs
  proof (rule filter_cong)
    fix j assume "j \<in> set xs"
    then have "j - i = Suc (j - Suc i)" using that by auto
    then show "(j = 0 \<or> (m # ms) ! (j - i) = 3) = (j = 0 \<or> ms ! (j - Suc i) = 3)"
      by simp
  qed simp
  have upt: "[i..<i + length (m # ms)] = i # [Suc i..<Suc i + length ms]"
    using upt_conv_Cons [of i "i + length (m # ms)"] by (simp del: upt_Suc)
  have "filter (\<lambda>j. j = 0 \<or> (m # ms) ! (j - i) = 3) [Suc i..<Suc i + length ms]
      = hard_marks (Suc i) ms"
    by (subst eq) (simp_all only: Cons.IH [of "Suc i"] set_upt atLeastLessThan_iff, simp)
  then show ?case
    by (simp only: upt filter.simps hard_marks.simps) simp
qed

lemma hard_marks_filter:
  "hard_marks 0 ms = filter (\<lambda>j. j = 0 \<or> ms ! j = 3) [0..<length ms]"
  using hard_marks_filter_gen [of 0 ms] by simp

lemma hard_marks_bounds: "x \<in> set (hard_marks i ms) \<Longrightarrow> i \<le> x \<and> x < i + length ms"
  by (simp add: hard_marks_filter_gen)

lemma hard_marks_sorted: "sorted_wrt (<) (hard_marks i ms)"
  by (simp add: hard_marks_filter_gen sorted_wrt_filter)

lemma hard_marks_0: "hard_marks 0 (m # ms) = 0 # hard_marks 1 ms"
  by simp

lemma generateHardBoundaries_char:
  assumes v: "valid_indices indices index_count vertex_count"
    and cap: "index_count div 3 \<le> length dest"
  shows "\<exists>ms ts' t' dest'.
      simulate cs (triangles indices index_count) (replicate vertex_count 0, cs + 1) = Some (ms, ts', t')
    \<and> generateHardBoundaries dest indices index_count vertex_count cs = Some (dest', length (hard_marks 0 ms))
    \<and> length dest' = length dest
    \<and> take (length (hard_marks 0 ms)) dest' = map of_nat (hard_marks 0 ms)
    \<and> length ms = index_count div 3"
proof -
  have v': "valid_indices indices index_count (length (replicate vertex_count (0::u32)))"
    using v by simp
  have e: "index_count div 3 * 3 \<le> index_count" by arith
  have cap': "0 + (index_count div 3 - 0) \<le> length dest" using cap by simp
  obtain ms ts' t' dest' where
    sim: "simulate cs (triangles_between indices 0 (index_count div 3)) (replicate vertex_count 0, cs + 1)
       = Some (ms, ts', t')"
    and loop: "hard_loop indices cs (index_count div 3) 0 (dest, 0, replicate vertex_count 0, cs + 1)
       = Some (dest', 0 + length (hard_marks 0 ms), ts', t')"
    and len: "length dest' = length dest"
    and tk: "take (0 + length (hard_marks 0 ms)) dest' = take 0 dest @ map of_nat (hard_marks 0 ms)"
    using hard_loop_char [OF v' e cap', of cs "cs + 1"] by blast
  have lms: "length ms = index_count div 3"
    using simulate_length [OF sim] by simp
  have "length (hard_marks 0 ms) \<le> index_count div 3"
    using length_hard_marks [of 0 ms] lms by simp
  then have "generateHardBoundaries dest indices index_count vertex_count cs
      = Some (dest', length (hard_marks 0 ms))"
    using loop by (simp add: generateHardBoundaries_def)
  with sim len tk lms show ?thesis
    by (simp add: triangles_def)
qed

lemma unat_of_nat_u32: "n < 2 ^ 32 \<Longrightarrow> unat (of_nat n :: u32) = n"
  by (simp add: unat_of_nat)

lemma map_unat_of_nat:
  assumes "\<forall>x \<in> set xs. x < 2 ^ 32"
  shows "map unat (map of_nat xs :: u32 list) = xs"
  using assms by (induction xs) (auto simp: unat_of_nat_u32)

text \<open>
  C3. For a non-empty index buffer the hard boundary detector runs one cache simulation
  over all triangles in input order, from a cold cache, and records triangle \<open>i\<close> iff \<open>i\<close>
  is 0 or all three vertices of triangle \<open>i\<close> miss (its miss count \<open>ms ! i\<close> is 3): the
  recorded entries, read as numbers, are exactly those triangle indices in increasing order.
  The first recorded entry is 0 and the number of entries is at most the triangle count.
  Entries are stored as \<open>unsigned int\<close>, so the triangle indices are assumed to fit.
\<close>

theorem hard_boundaries_rule:
  assumes "3 \<le> index_count"
    and "valid_indices indices index_count vertex_count"
    and "index_count div 3 \<le> length destination"
    and "index_count div 3 \<le> 2 ^ 32"
  shows "\<exists>ms ts t destination' result.
      simulate cache_size (triangles indices index_count) (replicate vertex_count 0, cache_size + 1)
        = Some (ms, ts, t)
    \<and> generateHardBoundaries destination indices index_count vertex_count cache_size
        = Some (destination', result)
    \<and> map unat (take result destination')
        = filter (\<lambda>i. i = 0 \<or> ms ! i = 3) [0..<index_count div 3]
    \<and> destination' ! 0 = 0
    \<and> 0 < result \<and> result \<le> index_count div 3"
proof -
  obtain ms ts' t' dest' where
    sim: "simulate cache_size (triangles indices index_count) (replicate vertex_count 0, cache_size + 1)
       = Some (ms, ts', t')"
    and gen: "generateHardBoundaries destination indices index_count vertex_count cache_size
       = Some (dest', length (hard_marks 0 ms))"
    and len: "length dest' = length destination"
    and tk: "take (length (hard_marks 0 ms)) dest' = map of_nat (hard_marks 0 ms)"
    and lms: "length ms = index_count div 3"
    using generateHardBoundaries_char [OF assms(2,3)] by blast
  have small: "\<forall>x \<in> set (hard_marks 0 ms). x < 2 ^ 32"
    using hard_marks_bounds [of _ 0 ms] lms assms(4) by fastforce
  have "map unat (take (length (hard_marks 0 ms)) dest') = hard_marks 0 ms"
    using map_unat_of_nat [OF small] by (simp only: tk)
  then have 1: "map unat (take (length (hard_marks 0 ms)) dest')
      = filter (\<lambda>i. i = 0 \<or> ms ! i = 3) [0..<index_count div 3]"
    by (simp only: hard_marks_filter lms)
  obtain m ms' where ms: "ms = m # ms'"
    using lms assms(1) by (cases ms) auto
  have pos: "0 < length (hard_marks 0 ms)" by (simp add: ms)
  have "dest' ! 0 = take (length (hard_marks 0 ms)) dest' ! 0"
    using pos by simp
  also have "\<dots> = 0" by (simp only: tk) (simp add: ms)
  finally have 2: "dest' ! 0 = 0" .
  have 3: "length (hard_marks 0 ms) \<le> index_count div 3"
    using length_hard_marks [of 0 ms] lms by simp
  show ?thesis
    using sim gen 1 2 pos 3 by blast
qed

theorem hard_boundaries_rule_witness:
  "\<exists>ms ts t destination' result.
      simulate 16 (triangles [0, 1, 2, 0, 1, 2, 3, 4, 5] 9) (replicate 6 0, 16 + 1) = Some (ms, ts, t)
    \<and> generateHardBoundaries [0, 0, 0] [0, 1, 2, 0, 1, 2, 3, 4, 5] 9 6 16 = Some (destination', result)
    \<and> map unat (take result destination') = filter (\<lambda>i. i = 0 \<or> ms ! i = 3) [0..<9 div 3]
    \<and> destination' ! 0 = 0
    \<and> 0 < result \<and> result \<le> 9 div 3"
proof -
  have "valid_indices [0, 1, 2, 0, 1, 2, 3, 4, 5] 9 6"
    by (simp add: valid_indices_def)
  then show ?thesis
    using hard_boundaries_rule [of 9 "[0, 1, 2, 0, 1, 2, 3, 4, 5]" 6 "[0, 0, 0]" 16] by simp
qed

subsection \<open>generateSoftBoundaries: one region\<close>

declare soft_measure_loop.simps [simp del]
declare soft_walk_loop.simps [simp del]
declare soft_region_loop.simps [simp del]

lemma soft_measure_loop_char:
  assumes v: "valid_indices indices index_count (length ts)"
    and e: "e * 3 \<le> index_count"
  shows "\<exists>ms ts' t'.
      simulate cs (triangles_between indices i e) (ts, t) = Some (ms, ts', t')
    \<and> soft_measure_loop indices cs e i (cm, ts, t) = Some (cm + sum_list ms, ts', t')
    \<and> length ts' = length ts"
  using v
proof (induction "e - i" arbitrary: i cm ts t)
  case 0
  then have "e \<le> i" by simp
  then show ?case
    by (simp add: triangles_between_empty soft_measure_loop.simps)
next
  case (Suc n)
  then have i: "i < e" by arith
  obtain a b c m ts1 t1 where tri: "triangle_at indices i = (a, b, c)"
    and rds: "rd indices (i * 3 + 0) = Some a" "rd indices (i * 3 + 1) = Some b" "rd indices (i * 3 + 2) = Some c"
    and uc: "updateCache a b c cs ts t = Some (m, ts1, t1)" and len1: "length ts1 = length ts"
    using triangle_step [OF Suc.prems(1) e i, of cs t] by blast
  have v1: "valid_indices indices index_count (length ts1)" using Suc.prems(1) len1 by simp
  have n: "n = e - Suc i" using Suc.hyps(2) by arith
  obtain ms ts' t' where
    sim: "simulate cs (triangles_between indices (Suc i) e) (ts1, t1) = Some (ms, ts', t')"
    and loop: "soft_measure_loop indices cs e (Suc i) (cm + m, ts1, t1) = Some (cm + m + sum_list ms, ts', t')"
    and len: "length ts' = length ts1"
    using Suc.hyps(1) [OF n v1] by blast
  have "soft_measure_loop indices cs e i (cm, ts, t) =
      soft_measure_loop indices cs e (Suc i) (cm + m, ts1, t1)"
    using i rds uc by (subst soft_measure_loop.simps) simp
  then have loop': "soft_measure_loop indices cs e i (cm, ts, t) = Some (cm + sum_list (m # ms), ts', t')"
    using loop by (simp add: add.assoc)
  have sim': "simulate cs (triangles_between indices i e) (ts, t) = Some (m # ms, ts', t')"
    by (simp add: triangles_between_step [OF i] tri uc sim)
  have "length ts' = length ts" using len len1 by simp
  with sim' loop' show ?case by blast
qed

lemma soft_walk_loop_char:
  assumes v: "valid_indices indices index_count (length ts)"
    and e: "e * 3 \<le> index_count"
    and cap: "r + (e - i) \<le> length dest"
  shows "\<exists>es rm' rf' ts' t' dest'.
      walk_emits F cs thr (triangles_between indices i e) i (rm, rf, ts, t) = Some (es, rm', rf', ts', t')
    \<and> soft_walk_loop F indices cs thr e i (dest, r, rm, rf, ts, t)
        = Some (dest', r + length es, rm', rf', ts', t')
    \<and> length dest' = length dest
    \<and> take (r + length es) dest' = take r dest @ map of_nat es
    \<and> length ts' = length ts"
  using v cap
proof (induction "e - i" arbitrary: i dest r rm rf ts t)
  case 0
  then have "e \<le> i" by simp
  then show ?case
    by (simp add: triangles_between_empty soft_walk_loop.simps)
next
  case (Suc n)
  then have i: "i < e" by arith
  obtain a b c m ts1 t1 where tri: "triangle_at indices i = (a, b, c)"
    and rds: "rd indices (i * 3 + 0) = Some a" "rd indices (i * 3 + 1) = Some b" "rd indices (i * 3 + 2) = Some c"
    and uc: "updateCache a b c cs ts t = Some (m, ts1, t1)" and len1: "length ts1 = length ts"
    using triangle_step [OF Suc.prems(1) e i, of cs t] by blast
  have v1: "valid_indices indices index_count (length ts1)" using Suc.prems(1) len1 by simp
  have n: "n = e - Suc i" using Suc.hyps(2) by arith
  have r: "r < length dest" using Suc.prems(2) i by arith
  show ?case
  proof (cases "f_le F (f_div F (f_of_u32 F (rm + m)) (f_of_u32 F (rf + 1))) thr")
    case True
    have cap1: "Suc r + (e - Suc i) \<le> length (dest[r := of_nat (Suc i)])"
      using Suc.prems(2) i by simp
    obtain es rm' rf' ts' t' dest' where
      sim: "walk_emits F cs thr (triangles_between indices (Suc i) e) (Suc i) (0, 0, ts1, t1 + (cs + 1))
          = Some (es, rm', rf', ts', t')"
      and loop: "soft_walk_loop F indices cs thr e (Suc i)
            (dest[r := of_nat (Suc i)], Suc r, 0, 0, ts1, t1 + (cs + 1))
          = Some (dest', Suc r + length es, rm', rf', ts', t')"
      and len: "length dest' = length (dest[r := of_nat (Suc i)])"
      and tk: "take (Suc r + length es) dest'
          = take (Suc r) (dest[r := of_nat (Suc i)]) @ map of_nat es"
      and lts: "length ts' = length ts1"
      using Suc.hyps(1) [OF n v1 cap1] by blast
    have tk': "take (Suc r) (dest[r := of_nat (Suc i)]) = take r dest @ [of_nat (Suc i)]"
      using r by (simp add: take_Suc_conv_app_nth)
    have "soft_walk_loop F indices cs thr e i (dest, r, rm, rf, ts, t) =
        soft_walk_loop F indices cs thr e (Suc i)
          (dest[r := of_nat (Suc i)], Suc r, 0, 0, ts1, t1 + (cs + 1))"
      using i rds uc True r by (subst soft_walk_loop.simps) simp
    with sim loop len tk tk' lts len1 True show ?thesis
      by (simp add: triangles_between_step [OF i] tri uc)
  next
    case False
    have cap1: "r + (e - Suc i) \<le> length dest"
      using Suc.prems(2) by arith
    obtain es rm' rf' ts' t' dest' where
      sim: "walk_emits F cs thr (triangles_between indices (Suc i) e) (Suc i) (rm + m, rf + 1, ts1, t1)
          = Some (es, rm', rf', ts', t')"
      and loop: "soft_walk_loop F indices cs thr e (Suc i) (dest, r, rm + m, rf + 1, ts1, t1)
          = Some (dest', r + length es, rm', rf', ts', t')"
      and len: "length dest' = length dest"
      and tk: "take (r + length es) dest' = take r dest @ map of_nat es"
      and lts: "length ts' = length ts1"
      using Suc.hyps(1) [OF n v1 cap1] by blast
    have "soft_walk_loop F indices cs thr e i (dest, r, rm, rf, ts, t) =
        soft_walk_loop F indices cs thr e (Suc i) (dest, r, rm + m, rf + 1, ts1, t1)"
      using i rds uc False by (subst soft_walk_loop.simps) simp
    with sim loop len tk lts len1 False show ?thesis
      by (simp add: triangles_between_step [OF i] tri uc)
  qed
qed

lemma walk_emits_props:
  assumes "walk_emits F cs thr tris i st = Some (es, st')"
  shows "sorted_wrt (<) es \<and> (\<forall>x \<in> set es. i < x \<and> x \<le> i + length tris) \<and> length es \<le> length tris"
  using assms
proof (induction tris arbitrary: i st es st')
  case Nil
  then show ?case by (cases st) auto
next
  case (Cons tri tris)
  obtain a b c where tri: "tri = (a, b, c)" by (cases tri)
  obtain rm rf ts t where st: "st = (rm, rf, ts, t)" by (cases st)
  obtain m ts1 t1 where uc: "updateCache a b c cs ts t = Some (m, ts1, t1)"
    using Cons.prems by (auto simp: tri st split: bind_splits)
  show ?case
  proof (cases "f_le F (f_div F (f_of_u32 F (rm + m)) (f_of_u32 F (rf + 1))) thr")
    case True
    then obtain es1 where w: "walk_emits F cs thr tris (i + 1) (0, 0, ts1, t1 + (cs + 1)) = Some (es1, st')"
      and es: "es = (i + 1) # es1"
      using Cons.prems by (auto simp: tri st uc split: bind_splits)
    from Cons.IH [OF w] show ?thesis
      by (auto simp: es)
  next
    case False
    then have w: "walk_emits F cs thr tris (i + 1) (rm + m, rf + 1, ts1, t1) = Some (es, st')"
      using Cons.prems by (auto simp: tri st uc)
    from Cons.IH [OF w] show ?thesis
      by auto
  qed
qed

lemma soft_region_char:
  assumes v: "valid_indices indices index_count (length ts)"
    and it: "it < cluster_count" and cl: "cluster_count \<le> length clusters"
    and start: "unat (clusters ! it) = start"
    and e: "(if it + 1 < cluster_count then unat (clusters ! (it + 1)) else index_count div 3) = e"
    and se: "start < e" and e3: "e * 3 \<le> index_count"
    and cap: "r + (e - start) + 1 \<le> length dest"
    and small: "e < 2 ^ 32"
  shows "\<exists>ms ts1 t1 es rm rf ts' t' dest'.
      simulate cs (triangles_between indices start e) (ts, t + (cs + 1)) = Some (ms, ts1, t1)
    \<and> walk_emits F cs
          (f_mul F threshold (f_div F (f_of_u32 F (sum_list ms)) (f_of_size F (e - start))))
          (triangles_between indices start e) start (0, 0, ts1, t1 + (cs + 1))
        = Some (es, rm, rf, ts', t')
    \<and> soft_region F indices index_count clusters cluster_count cs threshold it (dest, r, ts, t)
        = Some (dest', (if es = [] then r + 1 else r + length es), ts', t')
    \<and> length dest' = length dest
    \<and> take (r + 1 + length es) dest' = take r dest @ map of_nat (start # es)
    \<and> length ts' = length ts"
proof -
  let ?thr = "\<lambda>ms. f_mul F threshold (f_div F (f_of_u32 F (sum_list ms)) (f_of_size F (e - start)))"
  have rs: "rd clusters it = Some (clusters ! it)"
    using it cl by simp
  have re: "(if it + 1 < cluster_count
             then rd clusters (it + 1) \<bind> (\<lambda>x. Some (unat x))
             else Some (index_count div 3)) = Some e"
    using e cl by (auto split: if_splits)
  obtain ms ts1 t1 where
    sim: "simulate cs (triangles_between indices start e) (ts, t + (cs + 1)) = Some (ms, ts1, t1)"
    and ml: "soft_measure_loop indices cs e start (0, ts, t + (cs + 1)) = Some (0 + sum_list ms, ts1, t1)"
    and len1: "length ts1 = length ts"
    using soft_measure_loop_char [OF v e3, of cs start "t + (cs + 1)" 0] by blast
  have v1: "valid_indices indices index_count (length ts1)" using v len1 by simp
  have r: "r < length dest" using cap by arith
  have cap1: "Suc r + (e - start) \<le> length (dest[r := of_nat start])"
    using cap by simp
  obtain es rm rf ts' t' dest' where
    we: "walk_emits F cs (?thr ms) (triangles_between indices start e) start (0, 0, ts1, t1 + (cs + 1))
        = Some (es, rm, rf, ts', t')"
    and wl: "soft_walk_loop F indices cs (?thr ms) e start
          (dest[r := of_nat start], Suc r, 0, 0, ts1, t1 + (cs + 1))
        = Some (dest', Suc r + length es, rm, rf, ts', t')"
    and len: "length dest' = length (dest[r := of_nat start])"
    and tk: "take (Suc r + length es) dest' = take (Suc r) (dest[r := of_nat start]) @ map of_nat es"
    and lts: "length ts' = length ts1"
    using soft_walk_loop_char [OF v1 e3 cap1, of F cs "?thr ms" 0 0 "t1 + (cs + 1)"] by blast
  have "take (Suc r) (dest[r := of_nat start]) = take r dest @ [of_nat start]"
    using r by (simp add: take_Suc_conv_app_nth)
  then have tk': "take (Suc r + length es) dest' = take r dest @ map of_nat (start # es)"
    by (simp only: tk) simp
  have props: "\<forall>x \<in> set es. start < x \<and> x \<le> start + length (triangles_between indices start e)"
    using walk_emits_props [OF we] by blast
  have lastlt: "r + length es < length dest'"
    using cap walk_emits_props [OF we] len by simp
  have "dest' ! (r + length es) = take (Suc r + length es) dest' ! (r + length es)"
    by simp
  also have "\<dots> = (map of_nat (start # es) :: u32 list) ! length es"
    using r by (simp only: tk' nth_append) (simp add: min_absorb2)
  also have "\<dots> = of_nat (last (start # es))"
    by (simp add: last_conv_nth nth_Cons split: nat.splits)
  finally have lastb: "dest' ! (r + length es) = of_nat (last (start # es))" .
  have "last (start # es) \<le> e"
    using props se by (cases "es = []") (auto simp: less_imp_le)
  then have ul: "unat (of_nat (last (start # es)) :: u32) = last (start # es)"
    using small by (simp add: unat_of_nat_u32)
  have ud: "unat (dest' ! (r + length es)) = last (start # es)"
    by (simp only: lastb ul)
  have drop: "unat (dest' ! (r + length es)) \<noteq> start \<longleftrightarrow> es \<noteq> []"
  proof (cases "es = []")
    case True
    then show ?thesis using ud by simp
  next
    case False
    then have "last es \<in> set es" by simp
    then have "start < last es" using props by blast
    then show ?thesis using False ud by simp
  qed
  have "soft_region F indices index_count clusters cluster_count cs threshold it (dest, r, ts, t)
      = Some (dest', (if es = [] then r + 1 else r + length es), ts', t')"
  proof -
    have os: "(of_nat start :: u32) = clusters ! it"
      using start [symmetric] by simp
    show ?thesis
      using rs re se ml r wl [unfolded os] lastlt drop
      by (simp add: soft_region_def Let_def start)
  qed
  with sim we len tk' lts len1 show ?thesis
    by auto
qed

lemma unat_plus_1:
  assumes "unat (c :: u32) + 1 < 2 ^ 32"
  shows "unat (c + 1) = unat c + 1"
proof -
  have "unat (c + 1) = (unat c + unat (1 :: u32)) mod 2 ^ 32"
    by (simp add: unat_word_ariths)
  then show ?thesis using assms by simp
qed

text \<open>
  The cache reset advances the timestamp by \<open>cache_size + 1\<close>. Afterwards a vertex last
  used at or before the old timestamp is a miss, as long as the 32-bit timestamp does not
  wrap around: the cache is cold.
\<close>

lemma reset_is_cold:
  assumes old: "unat (last_used ! unat v) \<le> unat timestamp"
    and room: "unat timestamp + unat cache_size + 1 < 2 ^ 32"
  shows "\<not> cache_hit cache_size last_used (timestamp + (cache_size + 1)) v"
proof -
  let ?s = "last_used ! unat v"
  have c1: "unat (cache_size + 1) = unat cache_size + 1"
    using room by (intro unat_plus_1) arith
  have "unat timestamp + unat (cache_size + 1) < 2 ^ LENGTH(32)"
    using room c1 by simp
  then have t': "unat (timestamp + (cache_size + 1)) = unat timestamp + unat (cache_size + 1)"
    by (simp only: unat_add_lem)
  have le: "?s \<le> timestamp + (cache_size + 1)"
    using old t' by (simp add: word_le_nat_alt)
  have "unat (timestamp + (cache_size + 1) - ?s) = unat (timestamp + (cache_size + 1)) - unat ?s"
    using le by (rule unat_sub)
  then have "unat cache_size < unat (timestamp + (cache_size + 1) - ?s)"
    using old t' c1 by arith
  then have "cache_size < timestamp + (cache_size + 1) - ?s"
    by (simp add: word_less_nat_alt)
  then show ?thesis
    by (simp add: cache_hit_def not_le)
qed

lemmas eval_simps = generateSoftBoundaries_def generateHardBoundaries_def hard_loop.simps
  soft_region_loop.simps soft_region_def soft_measure_loop.simps soft_walk_loop.simps
  updateCache_def exact_ops_def Let_def rd_def wr_def assert_that_def
  triangles_between_def triangle_at_def

text \<open>
  C4. For a region \<open>[start, e)\<close> the generator advances the timestamp by \<open>cache_size + 1\<close>
  (the cache reset, see \<open>reset_is_cold\<close>) and simulates the cache over the whole region;
  with \<open>ms\<close> the miss counts of its triangles,
  \<open>cluster_threshold = threshold * (float(sum ms) / float(e - start))\<close>. It then writes \<open>start\<close>,
  resets the cache again and walks the region a second time; the boundaries written after
  \<open>start\<close> are exactly those of \<open>walk_emits\<close>: \<open>i + 1\<close> whenever running misses divided by
  running triangles is \<open>\<le> cluster_threshold\<close>, with the counters and the cache reset at each
  emission.
\<close>

theorem soft_region_two_passes:
  assumes "valid_indices indices index_count (length ts)"
    and "it < cluster_count" and "cluster_count \<le> length clusters"
    and "unat (clusters ! it) = start"
    and "(if it + 1 < cluster_count then unat (clusters ! (it + 1)) else index_count div 3) = e"
    and "start < e" and "e * 3 \<le> index_count"
    and "r + (e - start) + 1 \<le> length dest"
    and "e < 2 ^ 32"
  shows "\<exists>ms ts1 t1 es rm rf ts' t' dest' r'.
      simulate cs (triangles_between indices start e) (ts, t + (cs + 1)) = Some (ms, ts1, t1)
    \<and> walk_emits F cs
          (f_mul F threshold (f_div F (f_of_u32 F (sum_list ms)) (f_of_size F (e - start))))
          (triangles_between indices start e) start (0, 0, ts1, t1 + (cs + 1))
        = Some (es, rm, rf, ts', t')
    \<and> soft_region F indices index_count clusters cluster_count cs threshold it (dest, r, ts, t)
        = Some (dest', r', ts', t')
    \<and> take (r + 1 + length es) dest' = take r dest @ map of_nat (start # es)"
  using soft_region_char [OF assms, of cs t F threshold] by blast

theorem soft_region_two_passes_witness:
  "\<exists>ms ts1 t1 es rm rf ts' t' dest' r'.
      simulate 16 (triangles_between [0, 1, 2, 0, 1, 2, 0, 1, 2, 0, 3, 4] 0 4) ([0, 0, 0, 0, 0], 0 + (16 + 1))
        = Some (ms, ts1, t1)
    \<and> walk_emits exact_ops 16
          (f_mul exact_ops 1 (f_div exact_ops (f_of_u32 exact_ops (sum_list ms)) (f_of_size exact_ops (4 - 0))))
          (triangles_between [0, 1, 2, 0, 1, 2, 0, 1, 2, 0, 3, 4] 0 4) 0 (0, 0, ts1, t1 + (16 + 1))
        = Some (es, rm, rf, ts', t')
    \<and> soft_region exact_ops [0, 1, 2, 0, 1, 2, 0, 1, 2, 0, 3, 4] 12 [0] 1 16 1 0
          ([0, 0, 0, 0, 0], 0, [0, 0, 0, 0, 0], 0)
        = Some (dest', r', ts', t')
    \<and> take (0 + 1 + length es) dest' = take 0 [0, 0, 0, 0, 0] @ map of_nat (0 # es)"
proof -
  have "valid_indices [0, 1, 2, 0, 1, 2, 0, 1, 2, 0, 3, 4] 12 (length [0, 0, 0, 0, 0 :: u32])"
    by (simp add: valid_indices_def)
  then show ?thesis
    using soft_region_two_passes [of "[0, 1, 2, 0, 1, 2, 0, 1, 2, 0, 3, 4]" 12 "[0, 0, 0, 0, 0]"
        0 1 "[0]" 0 4 0 "[0, 0, 0, 0, 0]" 16 0 exact_ops 1]
    by simp
qed

text \<open>
  C6. With \<open>start # es\<close> the boundaries emitted for a region (the region start, then the
  emissions of the walk), the trailing emitted boundary is removed iff it differs from the
  region start: the count after the region is the count of emitted boundaries less one in
  that case, and the full count otherwise.
\<close>

theorem trailing_boundary_dropped_unless_start:
  assumes "valid_indices indices index_count (length ts)"
    and "it < cluster_count" and "cluster_count \<le> length clusters"
    and "unat (clusters ! it) = start"
    and "(if it + 1 < cluster_count then unat (clusters ! (it + 1)) else index_count div 3) = e"
    and "start < e" and "e * 3 \<le> index_count"
    and "r + (e - start) + 1 \<le> length dest"
    and "e < 2 ^ 32"
  shows "\<exists>ms ts1 t1 es rm rf ts' t' dest' r'.
      simulate cs (triangles_between indices start e) (ts, t + (cs + 1)) = Some (ms, ts1, t1)
    \<and> walk_emits F cs
          (f_mul F threshold (f_div F (f_of_u32 F (sum_list ms)) (f_of_size F (e - start))))
          (triangles_between indices start e) start (0, 0, ts1, t1 + (cs + 1))
        = Some (es, rm, rf, ts', t')
    \<and> soft_region F indices index_count clusters cluster_count cs threshold it (dest, r, ts, t)
        = Some (dest', r', ts', t')
    \<and> r' = (if last (start # es) \<noteq> start then r + length (start # es) - 1
             else r + length (start # es))"
proof -
  obtain ms ts1 t1 es rm rf ts' t' dest' where
    sim: "simulate cs (triangles_between indices start e) (ts, t + (cs + 1)) = Some (ms, ts1, t1)"
    and we: "walk_emits F cs
          (f_mul F threshold (f_div F (f_of_u32 F (sum_list ms)) (f_of_size F (e - start))))
          (triangles_between indices start e) start (0, 0, ts1, t1 + (cs + 1))
        = Some (es, rm, rf, ts', t')"
    and reg: "soft_region F indices index_count clusters cluster_count cs threshold it (dest, r, ts, t)
        = Some (dest', (if es = [] then r + 1 else r + length es), ts', t')"
    using soft_region_char [OF assms, of cs t F threshold] by blast
  have "\<forall>x \<in> set es. start < x"
    using walk_emits_props [OF we] by blast
  then have "last (start # es) \<noteq> start \<longleftrightarrow> es \<noteq> []"
    using last_in_set [of es] by auto
  then have "(if es = [] then r + 1 else r + length es)
      = (if last (start # es) \<noteq> start then r + length (start # es) - 1 else r + length (start # es))"
    by auto
  then have "soft_region F indices index_count clusters cluster_count cs threshold it (dest, r, ts, t)
        = Some (dest', (if last (start # es) \<noteq> start then r + length (start # es) - 1
             else r + length (start # es)), ts', t')"
    using reg by (simp only:)
  with sim we show ?thesis by blast
qed

theorem trailing_boundary_dropped_unless_start_witness:
  "\<exists>ms ts1 t1 es rm rf ts' t' dest' r'.
      simulate 16 (triangles_between [0, 1, 2, 0, 1, 2, 0, 1, 2] 0 3) ([0, 0, 0, 0, 0], 0 + (16 + 1))
        = Some (ms, ts1, t1)
    \<and> walk_emits exact_ops 16
          (f_mul exact_ops 1 (f_div exact_ops (f_of_u32 exact_ops (sum_list ms)) (f_of_size exact_ops (3 - 0))))
          (triangles_between [0, 1, 2, 0, 1, 2, 0, 1, 2] 0 3) 0 (0, 0, ts1, t1 + (16 + 1))
        = Some (es, rm, rf, ts', t')
    \<and> soft_region exact_ops [0, 1, 2, 0, 1, 2, 0, 1, 2] 9 [0] 1 16 1 0
          ([0, 0, 0, 0, 0], 0, [0, 0, 0, 0, 0], 0)
        = Some (dest', r', ts', t')
    \<and> r' = (if last (0 # es) \<noteq> 0 then 0 + length (0 # es) - 1 else 0 + length (0 # es))"
proof -
  have "valid_indices [0, 1, 2, 0, 1, 2, 0, 1, 2] 9 (length [0, 0, 0, 0, 0 :: u32])"
    by (simp add: valid_indices_def)
  then show ?thesis
    using trailing_boundary_dropped_unless_start [of "[0, 1, 2, 0, 1, 2, 0, 1, 2]" 9 "[0, 0, 0, 0, 0]"
        0 1 "[0]" 0 3 0 "[0, 0, 0, 0, 0]" 16 0 exact_ops 1]
    by simp
qed

text \<open>
  C5 as stated does not hold: the code does not check whether the trailing boundary equals
  the region end. In the region \<open>[0, 4)\<close> below (threshold 1, cache size 16) the first pass
  counts 5 misses, so the cluster threshold is 5/4; the walk emits the single boundary 3 after
  triangle 2 (3 misses over 3 triangles) and nothing after triangle 3. Boundary 3 marks the
  non-empty cluster \<open>[3, 4)\<close>, yet the returned count is 1: it is dropped and triangle 3
  merges into the cluster before it.
\<close>

theorem trailing_boundary_kept_counterexample:
  "walk_emits exact_ops 16 (5 / 4) (triangles_between [0, 1, 2, 0, 1, 2, 0, 1, 2, 0, 3, 4] 0 4) 0
       (0, 0, [17, 18, 19, 20, 21], 39)
     = Some ([3], 3, 1, [59, 40, 41, 60, 61], 62)
   \<and> generateSoftBoundaries exact_ops [0, 0, 0, 0, 0] [0, 1, 2, 0, 1, 2, 0, 1, 2, 0, 3, 4] 12 5 [0] 1 16 1
     = Some ([0, 3, 0, 0, 0], 1)"
  by (simp add: eval_simps upt_rec)

text \<open>
  C5, amended. After walking a region the generator drops the last emitted boundary whenever
  the walk emitted one, whether it equals the region end or lies below it: the boundaries that
  remain for the region are \<open>start\<close> followed by all emissions of the walk but the last.
\<close>

theorem trailing_boundary_merge:
  assumes "valid_indices indices index_count (length ts)"
    and "it < cluster_count" and "cluster_count \<le> length clusters"
    and "unat (clusters ! it) = start"
    and "(if it + 1 < cluster_count then unat (clusters ! (it + 1)) else index_count div 3) = e"
    and "start < e" and "e * 3 \<le> index_count"
    and "r + (e - start) + 1 \<le> length dest"
    and "e < 2 ^ 32"
  shows "\<exists>ms ts1 t1 es rm rf ts' t' dest' r'.
      simulate cs (triangles_between indices start e) (ts, t + (cs + 1)) = Some (ms, ts1, t1)
    \<and> walk_emits F cs
          (f_mul F threshold (f_div F (f_of_u32 F (sum_list ms)) (f_of_size F (e - start))))
          (triangles_between indices start e) start (0, 0, ts1, t1 + (cs + 1))
        = Some (es, rm, rf, ts', t')
    \<and> soft_region F indices index_count clusters cluster_count cs threshold it (dest, r, ts, t)
        = Some (dest', r', ts', t')
    \<and> take r' dest' = take r dest @ map of_nat (start # butlast es)"
proof -
  obtain ms ts1 t1 es rm rf ts' t' dest' where
    sim: "simulate cs (triangles_between indices start e) (ts, t + (cs + 1)) = Some (ms, ts1, t1)"
    and we: "walk_emits F cs
          (f_mul F threshold (f_div F (f_of_u32 F (sum_list ms)) (f_of_size F (e - start))))
          (triangles_between indices start e) start (0, 0, ts1, t1 + (cs + 1))
        = Some (es, rm, rf, ts', t')"
    and reg: "soft_region F indices index_count clusters cluster_count cs threshold it (dest, r, ts, t)
        = Some (dest', (if es = [] then r + 1 else r + length es), ts', t')"
    and tk: "take (r + 1 + length es) dest' = take r dest @ map of_nat (start # es)"
    using soft_region_char [OF assms, of cs t F threshold] by blast
  let ?r' = "if es = [] then r + 1 else r + length es"
  have rlen: "r \<le> length dest" using assms(8) by arith
  have "take ?r' dest' = take ?r' (take (r + 1 + length es) dest')"
    by (simp add: min_absorb1)
  also have "\<dots> = take ?r' (take r dest @ map of_nat (start # es))"
    by (simp only: tk)
  also have "\<dots> = take r dest @ take (?r' - r) (map of_nat (start # es))"
    using rlen by (simp add: min_absorb2)
  also have "take (?r' - r) (map of_nat (start # es)) = (map of_nat (start # butlast es) :: u32 list)"
  proof -
    have eq: "take (?r' - r) (start # es) = start # butlast es"
      by (cases es) (simp_all add: butlast_conv_take)
    show ?thesis
      by (simp only: take_map eq)
  qed
  finally have "take ?r' dest' = take r dest @ map of_nat (start # butlast es)" .
  with sim we reg show ?thesis by blast
qed

theorem trailing_boundary_merge_witness:
  "\<exists>ms ts1 t1 es rm rf ts' t' dest' r'.
      simulate 16 (triangles_between [0, 1, 2, 0, 1, 2, 3, 1, 2, 0, 3, 4] 0 4) ([0, 0, 0, 0, 0], 0 + (16 + 1))
        = Some (ms, ts1, t1)
    \<and> walk_emits exact_ops 16
          (f_mul exact_ops 1 (f_div exact_ops (f_of_u32 exact_ops (sum_list ms)) (f_of_size exact_ops (4 - 0))))
          (triangles_between [0, 1, 2, 0, 1, 2, 3, 1, 2, 0, 3, 4] 0 4) 0 (0, 0, ts1, t1 + (16 + 1))
        = Some (es, rm, rf, ts', t')
    \<and> soft_region exact_ops [0, 1, 2, 0, 1, 2, 3, 1, 2, 0, 3, 4] 12 [0] 1 16 1 0
          ([0, 0, 0, 0, 0], 0, [0, 0, 0, 0, 0], 0)
        = Some (dest', r', ts', t')
    \<and> take r' dest' = take 0 [0, 0, 0, 0, 0] @ map of_nat (0 # butlast es)"
proof -
  have "valid_indices [0, 1, 2, 0, 1, 2, 3, 1, 2, 0, 3, 4] 12 (length [0, 0, 0, 0, 0 :: u32])"
    by (simp add: valid_indices_def)
  then show ?thesis
    using trailing_boundary_merge [of "[0, 1, 2, 0, 1, 2, 3, 1, 2, 0, 3, 4]" 12 "[0, 0, 0, 0, 0]"
        0 1 "[0]" 0 4 0 "[0, 0, 0, 0, 0]" 16 0 exact_ops 1]
    by simp
qed

subsection \<open>generateSoftBoundaries: all regions\<close>

lemma sorted_butlast_less_last:
  assumes "sorted_wrt (<) (es :: nat list)" and "x \<in> set (butlast es)"
  shows "x < last es"
proof -
  have ne: "es \<noteq> []" using assms(2) by auto
  then have "es = butlast es @ [last es]" by simp
  then have "sorted_wrt (<) (butlast es @ [last es])" using assms(1) by simp
  then show ?thesis using assms(2) by (simp add: sorted_wrt_append)
qed

lemma sorted_butlast:
  assumes "sorted_wrt (<) (es :: nat list)"
  shows "sorted_wrt (<) (butlast es)"
proof (cases "es = []")
  case True
  then show ?thesis by simp
next
  case False
  then have "es = butlast es @ [last es]" by simp
  then have "sorted_wrt (<) (butlast es @ [last es])" using assms(1) by simp
  then show ?thesis by (simp add: sorted_wrt_append)
qed

lemma soft_region_final:
  assumes v: "valid_indices indices index_count (length ts)"
    and it: "it < cluster_count" and cl: "cluster_count \<le> length clusters"
    and start: "unat (clusters ! it) = start"
    and e: "cluster_start clusters cluster_count index_count (it + 1) = e"
    and se: "start < e" and e3: "e * 3 \<le> index_count"
    and cap: "r + (e - start) + 1 \<le> length dest"
    and small: "e < 2 ^ 32"
  shows "\<exists>bs dest' ts' t'.
      soft_region F indices index_count clusters cluster_count cs threshold it (dest, r, ts, t)
        = Some (dest', r + 1 + length bs, ts', t')
    \<and> length dest' = length dest \<and> length ts' = length ts
    \<and> take (r + 1 + length bs) dest' = take r dest @ clusters ! it # map of_nat bs
    \<and> sorted_wrt (<) bs \<and> (\<forall>x \<in> set bs. start < x \<and> x < e)
    \<and> r + 1 + length bs \<le> r + (e - start)"
proof -
  have e': "(if it + 1 < cluster_count then unat (clusters ! (it + 1)) else index_count div 3) = e"
    using e by (auto simp add: cluster_start_def split: if_splits)
  obtain ms ts1 t1 es rm rf ts' t' dest' where
    we: "walk_emits F cs
          (f_mul F threshold (f_div F (f_of_u32 F (sum_list ms)) (f_of_size F (e - start))))
          (triangles_between indices start e) start (0, 0, ts1, t1 + (cs + 1))
        = Some (es, rm, rf, ts', t')"
    and reg: "soft_region F indices index_count clusters cluster_count cs threshold it (dest, r, ts, t)
        = Some (dest', (if es = [] then r + 1 else r + length es), ts', t')"
    and len: "length dest' = length dest"
    and tk: "take (r + 1 + length es) dest' = take r dest @ map of_nat (start # es)"
    and lts: "length ts' = length ts"
    using soft_region_char [OF v it cl start e' se e3 cap small, of cs t F threshold] by blast
  have srt: "sorted_wrt (<) es" and rng: "\<forall>x \<in> set es. start < x \<and> x \<le> e"
    and les: "length es \<le> e - start"
    using walk_emits_props [OF we] se by auto
  let ?r' = "if es = [] then r + 1 else r + length es"
  have r': "?r' = r + 1 + length (butlast es)"
    by (cases es) auto
  have rlen: "r \<le> length dest" using cap by arith
  have os: "(of_nat start :: u32) = clusters ! it"
    using start [symmetric] by simp
  have "take ?r' dest' = take ?r' (take (r + 1 + length es) dest')"
    by (simp add: min_absorb1)
  also have "\<dots> = take ?r' (take r dest @ map of_nat (start # es))"
    by (simp only: tk)
  also have "\<dots> = take r dest @ take (?r' - r) (map of_nat (start # es))"
    using rlen by (simp add: min_absorb2)
  also have "take (?r' - r) (map of_nat (start # es)) = (map of_nat (start # butlast es) :: u32 list)"
  proof -
    have eq: "take (?r' - r) (start # es) = start # butlast es"
      by (cases es) (simp_all add: butlast_conv_take)
    show ?thesis
      by (simp only: take_map eq)
  qed
  finally have tk': "take (r + 1 + length (butlast es)) dest'
      = take r dest @ clusters ! it # map of_nat (butlast es)"
    by (simp only: r' list.map os)
  have b1: "sorted_wrt (<) (butlast es)" using srt by (rule sorted_butlast)
  have b2: "\<forall>x \<in> set (butlast es). start < x \<and> x < e"
  proof
    fix x assume x: "x \<in> set (butlast es)"
    then have "x \<in> set es" by (rule in_set_butlastD)
    moreover have "x < last es" using srt x by (rule sorted_butlast_less_last)
    moreover have "last es \<in> set es" using x by (cases "es = []") auto
    ultimately show "start < x \<and> x < e" using rng by fastforce
  qed
  have b3: "r + 1 + length (butlast es) \<le> r + (e - start)"
    using les se by (cases "es = []") auto
  have "soft_region F indices index_count clusters cluster_count cs threshold it (dest, r, ts, t)
        = Some (dest', r + 1 + length (butlast es), ts', t')"
    using reg by (simp only: r')
  with len lts tk' b1 b2 b3 show ?thesis by blast
qed

lemma boundaries_ok_nth_less:
  assumes "boundaries_ok bs B" "i < j" "j < length bs"
  shows "unat (bs ! i) < unat (bs ! j)"
proof -
  have "sorted_wrt (<) (map unat bs)" using assms(1) by (simp add: boundaries_ok_def)
  then have "map unat bs ! i < map unat bs ! j"
    using assms(2,3) by (intro sorted_wrt_nth_less) simp_all
  then show ?thesis using assms(2,3) by simp
qed

lemma boundaries_ok_bound:
  assumes "boundaries_ok bs B" "i < length bs"
  shows "unat (bs ! i) < B"
  using assms by (simp add: boundaries_ok_def list_all_length)

lemma boundaries_ok_extend:
  assumes xs: "boundaries_ok xs start" and c: "unat c = start"
    and bs: "sorted_wrt (<) bs" "\<forall>x \<in> set bs. start < x \<and> x < e"
    and e: "e < 2 ^ 32" "start < e"
  shows "boundaries_ok (xs @ c # map of_nat bs) e"
proof -
  have "\<forall>x \<in> set bs. x < 2 ^ 32" using bs(2) e(1) by fastforce
  then have m: "map unat (map of_nat bs :: u32 list) = bs"
    by (rule map_unat_of_nat)
  have eq: "map unat (xs @ c # map of_nat bs) = map unat xs @ start # bs"
    using m c by simp
  have lo: "\<forall>x \<in> set (map unat xs). x < start"
    using xs by (auto simp: boundaries_ok_def list_all_iff)
  have 1: "sorted_wrt (<) (map unat xs @ start # bs)"
    using xs bs lo by (fastforce simp: sorted_wrt_append boundaries_ok_def)
  have "\<forall>x \<in> set (map unat xs @ start # bs). x < e"
    using lo bs(2) e(2) by fastforce
  moreover have "list_all (\<lambda>b. unat b < e) ys = (\<forall>x \<in> set (map unat ys). x < e)" for ys :: "u32 list"
    by (simp add: list_all_iff)
  ultimately have 2: "list_all (\<lambda>b. unat b < e) (xs @ c # map of_nat bs)"
    by (simp only: eq)
  show ?thesis
    unfolding boundaries_ok_def using 1 2 by (simp only: eq)
qed

lemma soft_region_loop_inv:
  assumes v: "valid_indices indices index_count (length ts)"
    and cl: "cluster_count \<le> length clusters"
    and hard: "boundaries_ok (take cluster_count clusters) (index_count div 3)"
    and small: "index_count div 3 < 2 ^ 32"
    and len: "index_count div 3 + 1 \<le> length dest"
    and it: "it \<le> cluster_count"
    and inv: "it \<le> r" "r \<le> cluster_start clusters cluster_count index_count it"
      "boundaries_ok (take r dest) (cluster_start clusters cluster_count index_count it)"
      "subseq (take it clusters) (take r dest)"
  shows "\<exists>dest' r' ts' t'.
      soft_region_loop F indices index_count clusters cluster_count cs threshold it (dest, r, ts, t)
        = Some (dest', r', ts', t')
    \<and> length dest' = length dest
    \<and> cluster_count \<le> r' \<and> r' \<le> index_count div 3
    \<and> boundaries_ok (take r' dest') (index_count div 3)
    \<and> subseq (take cluster_count clusters) (take r' dest')"
  using v len it inv
proof (induction "cluster_count - it" arbitrary: it dest r ts t)
  case 0
  then have eq: "it = cluster_count" by simp
  have "soft_region_loop F indices index_count clusters cluster_count cs threshold it (dest, r, ts, t)
      = Some (dest, r, ts, t)"
    using eq by (subst soft_region_loop.simps) simp
  moreover have "cluster_start clusters cluster_count index_count it = index_count div 3"
    using eq by (simp add: cluster_start_def)
  ultimately show ?case
    using "0.prems" eq by auto
next
  case (Suc n)
  let ?T = "index_count div 3"
  let ?start = "unat (clusters ! it)"
  let ?e = "cluster_start clusters cluster_count index_count (it + 1)"
  have it: "it < cluster_count" using Suc.hyps(2) by arith
  have cs_it: "cluster_start clusters cluster_count index_count it = ?start"
    using it by (simp add: cluster_start_def)
  have nth_take: "take cluster_count clusters ! j = clusters ! j" if "j < cluster_count" for j
    using that by simp
  have ltake: "length (take cluster_count clusters) = cluster_count"
    using cl by simp
  have se: "?start < ?e"
  proof (cases "it + 1 < cluster_count")
    case True
    have "unat (take cluster_count clusters ! it) < unat (take cluster_count clusters ! (it + 1))"
      using hard True cl by (intro boundaries_ok_nth_less [where B = ?T]) simp_all
    then show ?thesis using True it by (simp add: cluster_start_def)
  next
    case False
    have "unat (take cluster_count clusters ! it) < ?T"
      using hard it cl by (intro boundaries_ok_bound) simp_all
    then show ?thesis using False it by (simp add: cluster_start_def)
  qed
  have eT: "?e \<le> ?T"
  proof (cases "it + 1 < cluster_count")
    case True
    have "unat (take cluster_count clusters ! (it + 1)) < ?T"
      using hard True cl by (intro boundaries_ok_bound) simp_all
    then show ?thesis using True by (simp add: cluster_start_def)
  next
    case False
    then show ?thesis by (simp add: cluster_start_def)
  qed
  have e3: "?e * 3 \<le> index_count" using eT by arith
  have rs: "r \<le> ?start" using Suc.prems(5) cs_it by simp
  have cap: "r + (?e - ?start) + 1 \<le> length dest"
    using rs se eT Suc.prems(2) by arith
  have esmall: "?e < 2 ^ 32" using eT small by arith
  obtain bs dest1 ts1 t1 where
    reg: "soft_region F indices index_count clusters cluster_count cs threshold it (dest, r, ts, t)
        = Some (dest1, r + 1 + length bs, ts1, t1)"
    and len1: "length dest1 = length dest" and lts1: "length ts1 = length ts"
    and tk: "take (r + 1 + length bs) dest1 = take r dest @ clusters ! it # map of_nat bs"
    and srt: "sorted_wrt (<) bs" and rng: "\<forall>x \<in> set bs. ?start < x \<and> x < ?e"
    and cnt: "r + 1 + length bs \<le> r + (?e - ?start)"
    using soft_region_final [OF Suc.prems(1) it cl refl refl se e3 cap esmall, of F cs threshold t]
    by blast
  have n: "n = cluster_count - (it + 1)" using Suc.hyps(2) by arith
  have v1: "valid_indices indices index_count (length ts1)" using Suc.prems(1) lts1 by simp
  have l1: "?T + 1 \<le> length dest1" using Suc.prems(2) len1 by simp
  have i1: "it + 1 \<le> cluster_count" using it by arith
  have i2: "it + 1 \<le> r + 1 + length bs" using Suc.prems(4) by arith
  have i3: "r + 1 + length bs \<le> ?e" using cnt rs se by arith
  have ok0: "boundaries_ok (take r dest) ?start" using Suc.prems(6) cs_it by simp
  have i4: "boundaries_ok (take (r + 1 + length bs) dest1) ?e"
    unfolding tk using ok0 refl srt rng esmall se by (rule boundaries_ok_extend)
  have tki: "take (it + 1) clusters = take it clusters @ [clusters ! it]"
    using it cl by (simp add: take_Suc_conv_app_nth)
  have "subseq [clusters ! it] (clusters ! it # map of_nat bs)" by simp
  with Suc.prems(7) have i5: "subseq (take (it + 1) clusters) (take (r + 1 + length bs) dest1)"
    unfolding tk tki by (rule list_emb_append_mono)
  obtain dest' r' ts' t' where
    loop: "soft_region_loop F indices index_count clusters cluster_count cs threshold (it + 1)
        (dest1, r + 1 + length bs, ts1, t1) = Some (dest', r', ts', t')"
    and fin: "length dest' = length dest1" "cluster_count \<le> r'" "r' \<le> ?T"
      "boundaries_ok (take r' dest') ?T" "subseq (take cluster_count clusters) (take r' dest')"
    using Suc.hyps(1) [OF n v1 l1 i1 i2 i3 i4 i5] by blast
  have "soft_region_loop F indices index_count clusters cluster_count cs threshold it (dest, r, ts, t)
      = Some (dest', r', ts', t')"
    using it reg loop by (subst soft_region_loop.simps) simp
  with fin len1 show ?case by simp
qed

lemma boundaries_ok_hard_marks:
  assumes "length ms \<le> 2 ^ 32"
  shows "boundaries_ok (map of_nat (hard_marks 0 ms)) (length ms)"
proof -
  have lt: "x < length ms" if "x \<in> set (hard_marks 0 ms)" for x
    using hard_marks_bounds [OF that] by simp
  have "\<forall>x \<in> set (hard_marks 0 ms). x < 2 ^ 32"
  proof
    fix x assume "x \<in> set (hard_marks 0 ms)"
    then have "x < length ms" by (rule lt)
    then show "x < 2 ^ 32" using assms by (rule less_le_trans)
  qed
  then have m: "map unat (map of_nat (hard_marks 0 ms) :: u32 list) = hard_marks 0 ms"
    by (rule map_unat_of_nat)
  have "list_all (\<lambda>x. x < length ms) (hard_marks 0 ms)"
    using lt by (simp add: list_all_iff)
  then have "list_all (\<lambda>x. x < length ms) (map unat (map of_nat (hard_marks 0 ms) :: u32 list))"
    by (simp only: m)
  then have 1: "list_all (\<lambda>b. unat b < length ms) (map of_nat (hard_marks 0 ms) :: u32 list)"
    by (simp add: list_all_iff)
  have 2: "sorted_wrt (<) (map unat (map of_nat (hard_marks 0 ms) :: u32 list))"
    by (simp only: m hard_marks_sorted)
  from 1 2 show ?thesis
    by (simp only: boundaries_ok_def)
qed

lemma boundaries_ok_first:
  assumes ok: "boundaries_ok bs B" and z: "0 \<in> set bs"
  shows "bs ! 0 = 0"
proof -
  obtain j where j: "j < length bs" "bs ! j = 0"
    using z by (auto simp: in_set_conv_nth)
  show ?thesis
  proof (cases "j = 0")
    case True
    then show ?thesis using j by simp
  next
    case False
    then have "unat (bs ! 0) < unat (bs ! j)"
      using ok j by (intro boundaries_ok_nth_less [where B = B]) simp_all
    then show ?thesis using j by simp
  qed
qed

lemma generate_boundaries:
  assumes n: "3 \<le> index_count"
    and v: "valid_indices indices index_count vertex_count"
    and small: "index_count div 3 < 2 ^ 32"
    and hb: "index_count div 3 \<le> length hard_buffer"
    and sb: "index_count div 3 + 1 \<le> length soft_buffer"
  shows "\<exists>hard hc soft sc.
      generateHardBoundaries hard_buffer indices index_count vertex_count cs = Some (hard, hc)
    \<and> generateSoftBoundaries F soft_buffer indices index_count vertex_count hard hc cs threshold
        = Some (soft, sc)
    \<and> 1 \<le> hc \<and> hc \<le> sc \<and> sc \<le> index_count div 3
    \<and> boundaries_ok (take sc soft) (index_count div 3)
    \<and> subseq (take hc hard) (take sc soft)
    \<and> hard ! 0 = 0 \<and> soft ! 0 = 0
    \<and> length soft = length soft_buffer"
proof -
  let ?T = "index_count div 3"
  obtain ms ts0 t0 hard where
    sim: "simulate cs (triangles indices index_count) (replicate vertex_count 0, cs + 1)
       = Some (ms, ts0, t0)"
    and gen: "generateHardBoundaries hard_buffer indices index_count vertex_count cs
       = Some (hard, length (hard_marks 0 ms))"
    and lh: "length hard = length hard_buffer"
    and tk: "take (length (hard_marks 0 ms)) hard = map of_nat (hard_marks 0 ms)"
    and lms: "length ms = ?T"
    using generateHardBoundaries_char [OF v hb, of cs] by blast
  let ?hc = "length (hard_marks 0 ms)"
  obtain m ms' where ms: "ms = m # ms'"
    using lms n by (cases ms) auto
  have hc1: "0 < ?hc" by (simp add: ms)
  have hcT: "?hc \<le> ?T" using length_hard_marks [of 0 ms] lms by simp
  have hcl: "?hc \<le> length hard" using hcT hb lh by simp
  have okh: "boundaries_ok (take ?hc hard) ?T"
    using boundaries_ok_hard_marks [of ms] small lms by (simp only: tk)
  have "hard ! 0 = take ?hc hard ! 0" using hc1 by simp
  also have "\<dots> = 0" by (simp only: tk) (simp add: ms)
  finally have h0: "hard ! 0 = 0" .
  have v0: "valid_indices indices index_count (length (replicate vertex_count (0::u32)))"
    using v by simp
  have "\<exists>dest' r' ts' t'.
      soft_region_loop F indices index_count hard ?hc cs threshold 0
        (soft_buffer, 0, replicate vertex_count 0, 0) = Some (dest', r', ts', t')
    \<and> length dest' = length soft_buffer
    \<and> ?hc \<le> r' \<and> r' \<le> ?T
    \<and> boundaries_ok (take r' dest') ?T
    \<and> subseq (take ?hc hard) (take r' dest')"
    by (rule soft_region_loop_inv [OF v0 hcl okh small sb]) (simp_all add: boundaries_ok_def)
  then obtain soft sc ts' t' where
    loop: "soft_region_loop F indices index_count hard ?hc cs threshold 0
        (soft_buffer, 0, replicate vertex_count 0, 0) = Some (soft, sc, ts', t')"
    and ls: "length soft = length soft_buffer"
    and c1: "?hc \<le> sc" and c2: "sc \<le> ?T"
    and oks: "boundaries_ok (take sc soft) ?T"
    and sub: "subseq (take ?hc hard) (take sc soft)"
    by blast
  have gs: "generateSoftBoundaries F soft_buffer indices index_count vertex_count hard ?hc cs threshold
      = Some (soft, sc)"
    using loop c1 c2 by (simp add: generateSoftBoundaries_def)
  have "(0::u32) \<in> set (map of_nat (hard_marks 0 ms))"
    by (simp add: ms)
  then have "0 \<in> set (take ?hc hard)"
    by (simp only: tk)
  with sub obtain y where "y \<in> set (take sc soft)" "0 = y"
    by (rule list_emb_set)
  then have "0 \<in> set (take sc soft)" by simp
  then have "take sc soft ! 0 = 0"
    using oks by (intro boundaries_ok_first)
  moreover have "0 < sc" using hc1 c1 by arith
  ultimately have s0: "soft ! 0 = 0" by simp
  have "1 \<le> ?hc" using hc1 by arith
  with gen gs c1 c2 oks sub h0 s0 ls show ?thesis
    apply (intro exI [of _ hard])
    apply (intro exI [of _ ?hc])
    apply (intro exI [of _ soft])
    apply (intro exI [of _ sc])
    apply (intro conjI)
    apply assumption+
    done
qed

text \<open>
  C7. For a non-empty valid input, with the hard boundaries computed by
  \<open>generateHardBoundaries\<close>, the soft boundary list has at least as many entries as the hard
  list and at most as many as there are triangles (so at least one), its first element is 0,
  and read as numbers its entries are strictly increasing, across regions as well as within
  them, and stay below the triangle count. The triangle count is assumed to fit in
  \<open>unsigned int\<close>, the type of the entries.
\<close>

theorem soft_boundaries_invariants:
  assumes "3 \<le> index_count"
    and "valid_indices indices index_count vertex_count"
    and "index_count div 3 < 2 ^ 32"
    and "index_count div 3 \<le> length hard_buffer"
    and "index_count div 3 + 1 \<le> length soft_buffer"
  shows "\<exists>hard hc soft sc.
      generateHardBoundaries hard_buffer indices index_count vertex_count cache_size = Some (hard, hc)
    \<and> generateSoftBoundaries F soft_buffer indices index_count vertex_count hard hc cache_size threshold
        = Some (soft, sc)
    \<and> hc \<le> sc \<and> 1 \<le> sc \<and> sc \<le> index_count div 3
    \<and> soft ! 0 = 0
    \<and> sorted_wrt (<) (map unat (take sc soft))
    \<and> list_all (\<lambda>b. unat b < index_count div 3) (take sc soft)"
proof -
  obtain hard hc soft sc where
    "generateHardBoundaries hard_buffer indices index_count vertex_count cache_size = Some (hard, hc)"
    "generateSoftBoundaries F soft_buffer indices index_count vertex_count hard hc cache_size threshold
        = Some (soft, sc)"
    "1 \<le> hc" "hc \<le> sc" "sc \<le> index_count div 3"
    "boundaries_ok (take sc soft) (index_count div 3)" "soft ! 0 = 0"
    using generate_boundaries [OF assms, of cache_size F threshold] by blast
  moreover from this have "1 \<le> sc" by arith
  ultimately show ?thesis
    unfolding boundaries_ok_def by blast
qed

theorem soft_boundaries_invariants_witness:
  "\<exists>hard hc soft sc.
      generateHardBoundaries [0, 0, 0, 0] [0, 1, 2, 0, 1, 2, 0, 1, 2, 0, 3, 4] 12 5 16 = Some (hard, hc)
    \<and> generateSoftBoundaries exact_ops [0, 0, 0, 0, 0] [0, 1, 2, 0, 1, 2, 0, 1, 2, 0, 3, 4] 12 5 hard hc 16 1
        = Some (soft, sc)
    \<and> hc \<le> sc \<and> 1 \<le> sc \<and> sc \<le> 12 div 3
    \<and> soft ! 0 = 0
    \<and> sorted_wrt (<) (map unat (take sc soft))
    \<and> list_all (\<lambda>b. unat b < 12 div 3) (take sc soft)"
proof -
  have "valid_indices [0, 1, 2, 0, 1, 2, 0, 1, 2, 0, 3, 4] 12 5"
    by (simp add: valid_indices_def)
  then show ?thesis
    using soft_boundaries_invariants [of 12 "[0, 1, 2, 0, 1, 2, 0, 1, 2, 0, 3, 4]" 5
        "[0, 0, 0, 0]" "[0, 0, 0, 0, 0]" 16 exact_ops 1]
    by simp
qed

text \<open>
  C10. Every hard boundary appears in the soft boundary list: each region contributes its
  start as its first soft boundary and the removal of the trailing boundary never takes it
  away, so the hard boundary list is a subsequence of the soft boundary list.
\<close>

theorem hard_boundaries_kept:
  assumes "3 \<le> index_count"
    and "valid_indices indices index_count vertex_count"
    and "index_count div 3 < 2 ^ 32"
    and "index_count div 3 \<le> length hard_buffer"
    and "index_count div 3 + 1 \<le> length soft_buffer"
  shows "\<exists>hard hc soft sc.
      generateHardBoundaries hard_buffer indices index_count vertex_count cache_size = Some (hard, hc)
    \<and> generateSoftBoundaries F soft_buffer indices index_count vertex_count hard hc cache_size threshold
        = Some (soft, sc)
    \<and> subseq (take hc hard) (take sc soft)"
proof -
  obtain hard hc soft sc where
    "generateHardBoundaries hard_buffer indices index_count vertex_count cache_size = Some (hard, hc)"
    "generateSoftBoundaries F soft_buffer indices index_count vertex_count hard hc cache_size threshold
        = Some (soft, sc)"
    "subseq (take hc hard) (take sc soft)"
    using generate_boundaries [OF assms, of cache_size F threshold] by blast
  then show ?thesis by blast
qed

theorem hard_boundaries_kept_witness:
  "\<exists>hard hc soft sc.
      generateHardBoundaries [0, 0, 0] [0, 1, 2, 2, 1, 3, 4, 5, 6] 9 7 16 = Some (hard, hc)
    \<and> generateSoftBoundaries exact_ops [0, 0, 0, 0] [0, 1, 2, 2, 1, 3, 4, 5, 6] 9 7 hard hc 16 1
        = Some (soft, sc)
    \<and> subseq (take hc hard) (take sc soft)"
proof -
  have "valid_indices [0, 1, 2, 2, 1, 3, 4, 5, 6] 9 7"
    by (simp add: valid_indices_def)
  then show ?thesis
    using hard_boundaries_kept [of 9 "[0, 1, 2, 2, 1, 3, 4, 5, 6]" 7 "[0, 0, 0]" "[0, 0, 0, 0]"
        16 exact_ops 1]
    by simp
qed

subsection \<open>calculateSortData\<close>

declare centroid_loop.simps [simp del]
declare cluster_tri_loop.simps [simp del]
declare sort_cluster_loop.simps [simp del]

lemma rd3_Some:
  assumes "p + 2 < length vp"
  shows "\<exists>x y z. rd3 vp p = Some (x, y, z)"
  using assms by (simp add: rd3_def)

lemma vertex_rd3:
  assumes v: "valid_indices indices index_count vertex_count"
    and vp: "\<forall>u < vertex_count. vsf * u + 2 < length vp"
    and j: "j < index_count"
  shows "rd indices j = Some (indices ! j) \<and> (\<exists>x y z. rd3 vp (vsf * unat (indices ! j)) = Some (x, y, z))"
proof -
  have "j < length indices" using v j by (simp add: valid_indices_def)
  moreover have "unat (indices ! j) < vertex_count" using v j by (rule valid_indices_nth)
  then have "vsf * unat (indices ! j) + 2 < length vp" using vp by blast
  ultimately show ?thesis using rd3_Some by simp
qed

lemma centroid_loop_Some:
  assumes v: "valid_indices indices index_count vertex_count"
    and vp: "\<forall>u < vertex_count. vsf * u + 2 < length vp"
  shows "centroid_loop F indices index_count vp vsf i acc \<noteq> None"
proof (induction "index_count - i" arbitrary: i acc)
  case 0
  then show ?case by (subst centroid_loop.simps) simp
next
  case (Suc n)
  then have i: "i < index_count" by arith
  obtain x y z where r: "rd indices i = Some (indices ! i)"
    "rd3 vp (vsf * unat (indices ! i)) = Some (x, y, z)"
    using vertex_rd3 [OF v vp i] by blast
  obtain m0 m1 m2 where acc: "acc = (m0, m1, m2)" by (cases acc)
  have n: "n = index_count - (i + 1)" using Suc.hyps(2) by arith
  have "centroid_loop F indices index_count vp vsf (i + 1)
      (f_add F m0 x, f_add F m1 y, f_add F m2 z) \<noteq> None"
    using Suc.hyps(1) [OF n] by blast
  then show ?case
    using i r by (subst centroid_loop.simps) (simp add: acc)
qed

lemma cluster_tri_loop_Some:
  assumes v: "valid_indices indices index_count vertex_count"
    and vp: "\<forall>u < vertex_count. vsf * u + 2 < length vp"
    and ce: "cluster_end \<le> index_count" "3 dvd cluster_end"
    and i: "3 dvd i"
  shows "cluster_tri_loop F indices vp vsf cluster_end i acc \<noteq> None"
  using i
proof (induction "cluster_end - i" arbitrary: i acc rule: less_induct)
  case less
  show ?case
  proof (cases "i < cluster_end")
    case False
    then show ?thesis by (subst cluster_tri_loop.simps) simp
  next
    case True
    obtain k where k: "i = 3 * k" using less.prems by (auto elim: dvdE)
    obtain l where l: "cluster_end = 3 * l" using ce(2) by (auto elim: dvdE)
    have i2: "i + 2 < cluster_end" using True k l by arith
    have j: "i + 0 < index_count" "i + 1 < index_count" "i + 2 < index_count"
      using i2 ce(1) by arith+
    obtain x0 y0 z0 where r0: "rd indices (i + 0) = Some (indices ! (i + 0))"
      "rd3 vp (vsf * unat (indices ! (i + 0))) = Some (x0, y0, z0)"
      using vertex_rd3 [OF v vp j(1)] by blast
    obtain x1 y1 z1 where r1: "rd indices (i + 1) = Some (indices ! (i + 1))"
      "rd3 vp (vsf * unat (indices ! (i + 1))) = Some (x1, y1, z1)"
      using vertex_rd3 [OF v vp j(2)] by blast
    obtain x2 y2 z2 where r2: "rd indices (i + 2) = Some (indices ! (i + 2))"
      "rd3 vp (vsf * unat (indices ! (i + 2))) = Some (x2, y2, z2)"
      using vertex_rd3 [OF v vp j(3)] by blast
    obtain a c0 c1 c2 n0 n1 n2 where acc: "acc = (a, (c0, c1, c2), (n0, n1, n2))"
      by (cases acc) auto
    have d: "cluster_end - (i + 3) < cluster_end - i" using True by arith
    have i3: "3 dvd (i + 3)" using less.prems by simp
    have step: "cluster_tri_loop F indices vp vsf cluster_end (i + 3) acc1 \<noteq> None" for acc1
      using less.hyps [OF d i3] by blast
    show ?thesis
      using True r0 r1 r2 step
      by (subst cluster_tri_loop.simps) (simp add: acc Let_def)
  qed
qed

lemma unat_times_3:
  assumes "unat (b :: u32) * 3 < 2 ^ 32"
  shows "unat (b * 3) = unat b * 3"
proof -
  have "unat (b * 3) = unat b * unat (3 :: u32) mod 2 ^ 32"
    by (simp add: unat_word_ariths)
  then show ?thesis using assms by simp
qed

lemma sort_cluster_loop_char:
  assumes v: "valid_indices indices index_count vertex_count"
    and vp: "\<forall>u < vertex_count. vsf * u + 2 < length vp"
    and cl: "cluster_count \<le> length clusters"
    and ok: "boundaries_ok (take cluster_count clusters) (index_count div 3)"
    and m3: "3 dvd index_count" and small: "index_count < 2 ^ 32"
    and sd: "cluster_count \<le> length sort_data"
  shows "\<exists>sd'. sort_cluster_loop F indices index_count vp vsf clusters cluster_count mc c sort_data
        = Some sd'
    \<and> length sd' = length sort_data
    \<and> (\<forall>k < length sd'. cluster (sd' ! k)
          = (if c \<le> k \<and> k < cluster_count then of_nat k else cluster (sort_data ! k)))"
  using sd
proof (induction "cluster_count - c" arbitrary: c sort_data)
  case 0
  then have "\<not> c < cluster_count" by simp
  then show ?case by (subst sort_cluster_loop.simps) auto
next
  case (Suc n)
  let ?T = "index_count div 3"
  have c: "c < cluster_count" using Suc.hyps(2) by arith
  have T3: "?T * 3 = index_count" using m3 by simp
  have bnd: "unat (clusters ! k) < ?T" if "k < cluster_count" for k
  proof -
    have "unat (take cluster_count clusters ! k) < ?T"
      using ok that cl by (intro boundaries_ok_bound) simp_all
    then show ?thesis using that by simp
  qed
  have mul: "unat (clusters ! k * 3) = unat (clusters ! k) * 3" if "k < cluster_count" for k
  proof -
    have "unat (clusters ! k) * 3 < ?T * 3" using bnd [OF that] by simp
    then have "unat (clusters ! k) * 3 < 2 ^ 32" using T3 small by simp
    then show ?thesis by (rule unat_times_3)
  qed
  define cluster_end where
    "cluster_end = (if cluster_count > c + 1 then unat (clusters ! (c + 1) * 3) else index_count)"
  have re: "(if cluster_count > c + 1
             then rd clusters (c + 1) \<bind> (\<lambda>e. Some (unat (e * 3)))
             else Some index_count) = Some cluster_end"
    using cl by (simp add: cluster_end_def)
  have rb: "rd clusters c = Some (clusters ! c)" using c cl by simp
  have lt: "unat (clusters ! c * 3) < cluster_end"
  proof (cases "cluster_count > c + 1")
    case True
    have "unat (take cluster_count clusters ! c) < unat (take cluster_count clusters ! (c + 1))"
      using ok True cl by (intro boundaries_ok_nth_less [where B = ?T]) simp_all
    then have "unat (clusters ! c) < unat (clusters ! (c + 1))" using True by simp
    then show ?thesis using True mul [of c] mul [of "c + 1"] c by (simp add: cluster_end_def)
  next
    case False
    have "unat (clusters ! c) * 3 < ?T * 3" using bnd [OF c] by simp
    then show ?thesis using False mul [OF c] T3 by (simp add: cluster_end_def)
  qed
  have ce1: "cluster_end \<le> index_count"
  proof (cases "cluster_count > c + 1")
    case True
    have "unat (clusters ! (c + 1)) * 3 < ?T * 3" using bnd [of "c + 1"] True by simp
    then show ?thesis using True mul [of "c + 1"] T3 by (simp add: cluster_end_def)
  next
    case False
    then show ?thesis by (simp add: cluster_end_def)
  qed
  have ce2: "3 dvd cluster_end"
  proof (cases "cluster_count > c + 1")
    case True
    then show ?thesis using mul [of "c + 1"] by (simp add: cluster_end_def)
  next
    case False
    then show ?thesis using m3 by (simp add: cluster_end_def)
  qed
  have cb: "3 dvd unat (clusters ! c * 3)" using mul [OF c] by simp
  let ?z = "f_of_int F 0"
  obtain acc where tri: "cluster_tri_loop F indices vp vsf cluster_end (unat (clusters ! c * 3))
      (?z, (?z, ?z, ?z), (?z, ?z, ?z)) = Some acc"
    using cluster_tri_loop_Some [OF v vp ce1 ce2 cb, of F "(?z, (?z, ?z, ?z), (?z, ?z, ?z))"]
    by blast
  let ?new = "\<lparr>cluster = of_nat c, dot_product = cluster_score F mc acc\<rparr>"
  have cs: "c < length sort_data" using c Suc.prems by arith
  have n: "n = cluster_count - (c + 1)" using Suc.hyps(2) by arith
  have sd1: "cluster_count \<le> length (sort_data[c := ?new])" using Suc.prems by simp
  obtain sd' where
    loop: "sort_cluster_loop F indices index_count vp vsf clusters cluster_count mc (c + 1)
        (sort_data[c := ?new]) = Some sd'"
    and len: "length sd' = length (sort_data[c := ?new])"
    and cf: "\<forall>k < length sd'. cluster (sd' ! k)
          = (if c + 1 \<le> k \<and> k < cluster_count then of_nat k
             else cluster (sort_data[c := ?new] ! k))"
    using Suc.hyps(1) [OF n sd1] by blast
  have "sort_cluster_loop F indices index_count vp vsf clusters cluster_count mc c sort_data = Some sd'"
    using c rb re lt tri cs loop by (subst sort_cluster_loop.simps) (simp add: Let_def)
  moreover have "length sd' = length sort_data" using len by simp
  moreover have "\<forall>k < length sd'. cluster (sd' ! k)
      = (if c \<le> k \<and> k < cluster_count then of_nat k else cluster (sort_data ! k))"
  proof (intro allI impI)
    fix k assume k: "k < length sd'"
    show "cluster (sd' ! k) = (if c \<le> k \<and> k < cluster_count then of_nat k else cluster (sort_data ! k))"
    proof (cases "k = c")
      case True
      then show ?thesis using cf k c cs by simp
    next
      case False
      then show ?thesis using cf k by auto
    qed
  qed
  ultimately show ?case by blast
qed

lemma calculateSortData_char:
  assumes v: "valid_indices indices index_count vertex_count"
    and vp: "\<forall>u < vertex_count. (stride div 4) * u + 2 < length vp"
    and cl: "cluster_count \<le> length clusters"
    and ok: "boundaries_ok (take cluster_count clusters) (index_count div 3)"
    and m3: "3 dvd index_count" and small: "index_count < 2 ^ 32"
    and sd: "length sort_data = cluster_count"
  shows "\<exists>sd'. calculateSortData F sort_data indices index_count vp stride clusters cluster_count
        = Some sd'
    \<and> map cluster sd' = map of_nat [0..<cluster_count]"
proof -
  let ?z = "f_of_int F 0"
  obtain m where "centroid_loop F indices index_count vp (stride div 4) 0 (?z, ?z, ?z) = Some m"
    using centroid_loop_Some [OF v vp, of F 0 "(?z, ?z, ?z)"] by blast
  then obtain m0 m1 m2 where
    cen: "centroid_loop F indices index_count vp (stride div 4) 0 (?z, ?z, ?z) = Some (m0, m1, m2)"
    by (cases m) auto
  let ?n = "f_of_size F index_count"
  let ?mc = "(f_div F m0 ?n, f_div F m1 ?n, f_div F m2 ?n)"
  have sd': "cluster_count \<le> length sort_data" using sd by simp
  obtain sd' where
    loop: "sort_cluster_loop F indices index_count vp (stride div 4) clusters cluster_count ?mc 0 sort_data
        = Some sd'"
    and len: "length sd' = length sort_data"
    and cf: "\<forall>k < length sd'. cluster (sd' ! k)
          = (if 0 \<le> k \<and> k < cluster_count then of_nat k else cluster (sort_data ! k))"
    using sort_cluster_loop_char [OF v vp cl ok m3 small sd', of F ?mc 0] by blast
  have "calculateSortData F sort_data indices index_count vp stride clusters cluster_count = Some sd'"
    using cen loop by (simp add: calculateSortData_def Let_def)
  moreover have "map cluster sd' = map of_nat [0..<cluster_count]"
    using len sd cf by (intro nth_equalityI) simp_all
  ultimately show ?thesis by blast
qed

subsection \<open>The output loops\<close>

declare copy_tri_loop.simps [simp del]
declare copy_cluster_loop.simps [simp del]

lemma put_Some:
  "offset < length (mem p) \<Longrightarrow> put mem p offset v = Some (mem(p := (mem p)[offset := v]))"
  by (simp add: put_def)

lemma source_buffer_update:
  assumes "\<forall>p. src = Caller p \<longrightarrow> p \<noteq> destination"
  shows "source_buffer (mem(destination := d)) src = source_buffer mem src"
  using assms by (cases src) auto

lemma take_three_updates:
  assumes "n + 2 < length xs"
  shows "take (n + 3) (xs[n := a, n + 1 := b, n + 2 := c]) = take n xs @ [a, b, c]"
proof -
  let ?ys = "xs[n := a, n + 1 := b, n + 2 := c]"
  have l: "length ?ys = length xs" by simp
  have "take (Suc (Suc (Suc n))) ?ys = take n ?ys @ [?ys ! n, ?ys ! Suc n, ?ys ! Suc (Suc n)]"
    using assms l by (simp add: take_Suc_conv_app_nth)
  moreover have "take n ?ys = take n xs" by simp
  moreover have "?ys ! n = a" "?ys ! Suc n = b" "?ys ! Suc (Suc n) = c"
    using assms by simp_all
  ultimately show ?thesis by (simp add: numeral_3_eq_3)
qed

lemma drop_three_updates:
  assumes "n + 3 \<le> m"
  shows "drop m (xs[n := a, n + 1 := b, n + 2 := c]) = drop m xs"
  using assms by simp

lemma copy_tri_loop_char:
  assumes src: "source_buffer mem src = idx" "\<forall>p. src = Caller p \<longrightarrow> p \<noteq> destination"
    and e3: "e * 3 \<le> length idx"
    and cap: "offset + 3 * (e - i) \<le> length (mem destination)"
  shows "\<exists>mem'. copy_tri_loop src destination e i (mem, offset) = Some (mem', offset + 3 * (e - i))
    \<and> (\<forall>p. p \<noteq> destination \<longrightarrow> mem' p = mem p)
    \<and> length (mem' destination) = length (mem destination)
    \<and> take (offset + 3 * (e - i)) (mem' destination)
        = take offset (mem destination) @ flatten_triangles (triangles_between idx i e)
    \<and> drop (offset + 3 * (e - i)) (mem' destination) = drop (offset + 3 * (e - i)) (mem destination)"
  using src(1) cap
proof (induction "e - i" arbitrary: i mem offset)
  case 0
  then have "e \<le> i" by simp
  then show ?case
    by (subst copy_tri_loop.simps) (simp add: triangles_between_empty)
next
  case (Suc n)
  then have i: "i < e" by arith
  let ?a = "idx ! (3 * i)" and ?b = "idx ! (3 * i + 1)" and ?c = "idx ! (3 * i + 2)"
  let ?d = "mem destination"
  let ?d3 = "?d[offset := ?a, offset + 1 := ?b, offset + 2 := ?c]"
  let ?mem1 = "mem(destination := ?d[offset := ?a])"
  let ?mem2 = "?mem1(destination := ?d[offset := ?a, offset + 1 := ?b])"
  let ?mem3 = "?mem2(destination := ?d3)"
  have rng: "3 * i + 2 < length idx" using i e3 by arith
  have off: "offset + 2 < length ?d" using Suc.prems(2) i by arith
  have s0: "source_buffer mem src = idx" by (rule Suc.prems(1))
  have s1: "source_buffer ?mem1 src = idx"
    using source_buffer_update [OF src(2)] s0 by simp
  have s2: "source_buffer ?mem2 src = idx"
    using source_buffer_update [OF src(2)] s1 by simp
  have s3: "source_buffer ?mem3 src = idx"
    using source_buffer_update [OF src(2)] s2 by simp
  have p1: "put mem destination offset ?a = Some ?mem1"
    using off by (simp add: put_Some)
  have p2: "put ?mem1 destination (offset + 1) ?b = Some ?mem2"
    using off by (simp add: put_Some)
  have p3: "put ?mem2 destination (offset + 1 + 1) ?c = Some ?mem3"
    using off by (simp add: put_Some add.assoc)
  have unfold0: "copy_tri_loop src destination e i (mem, offset)
      = copy_tri_loop src destination e (i + 1) (?mem3, offset + 1 + 1 + 1)"
    using i rng s0 s1 s2 p1 p2 p3
    by (subst copy_tri_loop.simps) (simp add: Let_def del: fun_upd_apply fun_upd_upd)
  have o3: "offset + 1 + 1 + 1 = offset + 3" by simp
  have unfold: "copy_tri_loop src destination e i (mem, offset)
      = copy_tri_loop src destination e (i + 1) (?mem3, offset + 3)"
    using unfold0 by (simp only: o3)
  have n: "n = e - (i + 1)" using Suc.hyps(2) by arith
  have cap1: "offset + 3 + 3 * (e - (i + 1)) \<le> length (?mem3 destination)"
    using Suc.prems(2) i by simp
  obtain mem' where
    loop: "copy_tri_loop src destination e (i + 1) (?mem3, offset + 3)
        = Some (mem', offset + 3 + 3 * (e - (i + 1)))"
    and frame: "\<forall>p. p \<noteq> destination \<longrightarrow> mem' p = ?mem3 p"
    and len: "length (mem' destination) = length (?mem3 destination)"
    and tk: "take (offset + 3 + 3 * (e - (i + 1))) (mem' destination)
        = take (offset + 3) (?mem3 destination) @ flatten_triangles (triangles_between idx (i + 1) e)"
    and dr: "drop (offset + 3 + 3 * (e - (i + 1))) (mem' destination)
        = drop (offset + 3 + 3 * (e - (i + 1))) (?mem3 destination)"
    using Suc.hyps(1) [OF n s3 cap1] by blast
  have eq: "offset + 3 + 3 * (e - (i + 1)) = offset + 3 * (e - i)" using i by arith
  have m3d: "?mem3 destination = ?d3" by simp
  have t3: "take (offset + 3) ?d3 = take offset ?d @ [?a, ?b, ?c]"
    using off by (rule take_three_updates)
  have d3: "drop (offset + 3 * (e - i)) ?d3 = drop (offset + 3 * (e - i)) ?d"
    using i by (intro drop_three_updates) arith
  have tb: "triangles_between idx i e = (?a, ?b, ?c) # triangles_between idx (i + 1) e"
    using triangles_between_step [OF i, of idx] by (simp add: triangle_at_def)
  have 1: "copy_tri_loop src destination e i (mem, offset) = Some (mem', offset + 3 * (e - i))"
    by (simp only: unfold loop eq)
  have 2: "\<forall>p. p \<noteq> destination \<longrightarrow> mem' p = mem p"
    using frame by simp
  have 3: "length (mem' destination) = length ?d"
    using len by simp
  have 4: "take (offset + 3 * (e - i)) (mem' destination)
      = take offset ?d @ flatten_triangles (triangles_between idx i e)"
    using tk unfolding eq m3d t3 tb by simp
  have 5: "drop (offset + 3 * (e - i)) (mem' destination) = drop (offset + 3 * (e - i)) ?d"
    using dr unfolding eq m3d d3 .
  from 1 2 3 4 5 show ?case by blast
qed

lemma flatten_triangles_append:
  "flatten_triangles (xs @ ys) = flatten_triangles xs @ flatten_triangles ys"
  by (induction xs rule: flatten_triangles.induct) simp_all

lemma length_flatten_triangles: "length (flatten_triangles xs) = 3 * length xs"
  by (induction xs rule: flatten_triangles.induct) simp_all

lemma cluster_start_less:
  assumes cl: "cluster_count \<le> length clusters"
    and ok: "boundaries_ok (take cluster_count clusters) (index_count div 3)"
    and c: "c < cluster_count"
  shows "cluster_start clusters cluster_count index_count c
       < cluster_start clusters cluster_count index_count (c + 1)"
proof (cases "c + 1 < cluster_count")
  case True
  have "unat (take cluster_count clusters ! c) < unat (take cluster_count clusters ! (c + 1))"
    using ok True cl by (intro boundaries_ok_nth_less [where B = "index_count div 3"]) simp_all
  then show ?thesis using True c by (simp add: cluster_start_def)
next
  case False
  have "unat (take cluster_count clusters ! c) < index_count div 3"
    using ok c cl by (intro boundaries_ok_bound) simp_all
  then show ?thesis using False c by (simp add: cluster_start_def)
qed

lemma cluster_start_le:
  assumes cl: "cluster_count \<le> length clusters"
    and ok: "boundaries_ok (take cluster_count clusters) (index_count div 3)"
  shows "cluster_start clusters cluster_count index_count c \<le> index_count div 3"
proof (cases "c < cluster_count")
  case True
  have "unat (take cluster_count clusters ! c) < index_count div 3"
    using ok True cl by (intro boundaries_ok_bound) simp_all
  then show ?thesis using True by (simp add: cluster_start_def)
next
  case False
  then show ?thesis by (simp add: cluster_start_def)
qed

lemma copy_cluster_loop_char:
  assumes src: "source_buffer mem src = idx" "\<forall>p. src = Caller p \<longrightarrow> p \<noteq> destination"
    and idxl: "index_count div 3 * 3 \<le> length idx"
    and sdl: "length sort_data = cluster_count"
    and ord: "\<forall>k < cluster_count. unat (cluster (sort_data ! k)) < cluster_count"
    and cl: "cluster_count \<le> length clusters"
    and ok: "boundaries_ok (take cluster_count clusters) (index_count div 3)"
    and small: "cluster_count < 2 ^ 32"
    and cap: "offset + 3 * length (concat (map (cluster_triangles idx clusters cluster_count index_count)
        (drop it (map (\<lambda>sd. unat (cluster sd)) sort_data)))) \<le> length (mem destination)"
  shows "\<exists>mem' out.
      out = concat (map (cluster_triangles idx clusters cluster_count index_count)
        (drop it (map (\<lambda>sd. unat (cluster sd)) sort_data)))
    \<and> copy_cluster_loop sort_data clusters cluster_count index_count src destination it (mem, offset)
        = Some (mem', offset + 3 * length out)
    \<and> (\<forall>p. p \<noteq> destination \<longrightarrow> mem' p = mem p)
    \<and> length (mem' destination) = length (mem destination)
    \<and> take (offset + 3 * length out) (mem' destination)
        = take offset (mem destination) @ flatten_triangles out
    \<and> drop (offset + 3 * length out) (mem' destination)
        = drop (offset + 3 * length out) (mem destination)"
  using src(1) cap
proof (induction "cluster_count - it" arbitrary: it mem offset)
  case 0
  then have "\<not> it < cluster_count" "length (map (\<lambda>sd. unat (cluster sd)) sort_data) \<le> it"
    using sdl by simp_all
  then show ?case
    by (subst copy_cluster_loop.simps) simp
next
  case (Suc n)
  let ?order = "map (\<lambda>sd. unat (cluster sd)) sort_data"
  let ?ct = "cluster_triangles idx clusters cluster_count index_count"
  let ?cs = "cluster_start clusters cluster_count index_count"
  let ?T = "index_count div 3"
  have it: "it < cluster_count" using Suc.hyps(2) by arith
  let ?c = "cluster (sort_data ! it)"
  have c: "unat ?c < cluster_count" using ord it by blast
  have c1: "unat (?c + 1) = unat ?c + 1"
    using c small by (intro unat_plus_1) arith
  have dr: "drop it ?order = unat ?c # drop (it + 1) ?order"
    using it sdl by (simp add: Cons_nth_drop_Suc [symmetric])
  have start: "unat (clusters ! unat ?c) = ?cs (unat ?c)"
    using c by (simp add: cluster_start_def)
  have re: "(if unat (?c + 1) < cluster_count
             then rd clusters (unat (?c + 1)) \<bind> (\<lambda>e. Some (unat e))
             else Some ?T) = Some (?cs (unat ?c + 1))"
    using cl by (simp add: c1 cluster_start_def)
  have se: "?cs (unat ?c) < ?cs (unat ?c + 1)"
    using cl ok c by (rule cluster_start_less)
  have eT: "?cs (unat ?c + 1) \<le> ?T"
    using cl ok by (rule cluster_start_le)
  have e3: "?cs (unat ?c + 1) * 3 \<le> length idx"
    using eT idxl by arith
  let ?sz = "?cs (unat ?c + 1) - ?cs (unat ?c)"
  let ?rest = "concat (map ?ct (drop (it + 1) ?order))"
  have out: "concat (map ?ct (drop it ?order)) = ?ct (unat ?c) @ ?rest"
    by (simp only: dr list.map concat.simps)
  have lct: "length (?ct (unat ?c)) = ?sz"
    by (simp add: cluster_triangles_def)
  have cap0: "offset + 3 * ?sz \<le> length (mem destination)"
    using Suc.prems(2) unfolding out by (simp add: lct)
  obtain mem1 where
    tl: "copy_tri_loop src destination (?cs (unat ?c + 1)) (?cs (unat ?c)) (mem, offset)
        = Some (mem1, offset + 3 * ?sz)"
    and frame1: "\<forall>p. p \<noteq> destination \<longrightarrow> mem1 p = mem p"
    and len1: "length (mem1 destination) = length (mem destination)"
    and tk1: "take (offset + 3 * ?sz) (mem1 destination)
        = take offset (mem destination) @ flatten_triangles (?ct (unat ?c))"
    and dr1: "drop (offset + 3 * ?sz) (mem1 destination) = drop (offset + 3 * ?sz) (mem destination)"
    using copy_tri_loop_char [OF Suc.prems(1) src(2) e3 cap0]
    unfolding cluster_triangles_def by blast
  have s1: "source_buffer mem1 src = idx"
    using Suc.prems(1) frame1 src(2) by (cases src) auto
  have n: "n = cluster_count - (it + 1)" using Suc.hyps(2) by arith
  have cap1: "offset + 3 * ?sz + 3 * length ?rest \<le> length (mem1 destination)"
    using Suc.prems(2) unfolding out by (simp add: lct len1)
  obtain mem' where
    loop: "copy_cluster_loop sort_data clusters cluster_count index_count src destination (it + 1)
        (mem1, offset + 3 * ?sz) = Some (mem', offset + 3 * ?sz + 3 * length ?rest)"
    and frame: "\<forall>p. p \<noteq> destination \<longrightarrow> mem' p = mem1 p"
    and len: "length (mem' destination) = length (mem1 destination)"
    and tk: "take (offset + 3 * ?sz + 3 * length ?rest) (mem' destination)
        = take (offset + 3 * ?sz) (mem1 destination) @ flatten_triangles ?rest"
    and drp: "drop (offset + 3 * ?sz + 3 * length ?rest) (mem' destination)
        = drop (offset + 3 * ?sz + 3 * length ?rest) (mem1 destination)"
    using Suc.hyps(1) [OF n s1 cap1] by blast
  have tot: "offset + 3 * length (?ct (unat ?c) @ ?rest) = offset + 3 * ?sz + 3 * length ?rest"
    by (simp add: lct)
  have rsd: "rd sort_data it = Some (sort_data ! it)" using it sdl by simp
  have rcl: "rd clusters (unat ?c) = Some (clusters ! unat ?c)" using c cl by simp
  have 1: "copy_cluster_loop sort_data clusters cluster_count index_count src destination it (mem, offset)
      = Some (mem', offset + 3 * length (?ct (unat ?c) @ ?rest))"
    unfolding tot using it rsd c rcl re se tl loop
    by (subst copy_cluster_loop.simps) (simp add: Let_def start)
  have 2: "\<forall>p. p \<noteq> destination \<longrightarrow> mem' p = mem p"
    using frame frame1 by simp
  have 3: "length (mem' destination) = length (mem destination)"
    using len len1 by simp
  have 4: "take (offset + 3 * length (?ct (unat ?c) @ ?rest)) (mem' destination)
      = take offset (mem destination) @ flatten_triangles (?ct (unat ?c) @ ?rest)"
    unfolding tot tk tk1 by (simp add: flatten_triangles_append)
  have "drop (offset + 3 * ?sz + 3 * length ?rest) (mem1 destination)
      = drop (3 * length ?rest) (drop (offset + 3 * ?sz) (mem1 destination))"
    by (simp add: add.commute)
  also have "\<dots> = drop (offset + 3 * ?sz + 3 * length ?rest) (mem destination)"
    unfolding dr1 by (simp add: add.commute)
  finally have 5: "drop (offset + 3 * length (?ct (unat ?c) @ ?rest)) (mem' destination)
      = drop (offset + 3 * length (?ct (unat ?c) @ ?rest)) (mem destination)"
    unfolding tot drp .
  from 1 2 3 4 5 show ?case
    unfolding out by blast
qed

subsection \<open>meshopt_optimizeOverdraw\<close>

lemma triangles_between_append:
  assumes "a \<le> b" "b \<le> c"
  shows "triangles_between idx a b @ triangles_between idx b c = triangles_between idx a c"
proof -
  have "[a..<c] = [a..<b] @ [b..<c]"
    using assms upt_add_eq_append [of a b "c - b"] by simp
  then show ?thesis by (simp add: triangles_between_def)
qed

lemma concat_ranges:
  assumes "\<forall>c < n. f c \<le> f (Suc c)"
  shows "f 0 \<le> f n \<and>
    concat (map (\<lambda>c. triangles_between idx (f c) (f (Suc c))) [0..<n]) = triangles_between idx (f 0) (f n)"
  using assms
proof (induction n)
  case 0
  then show ?case by (simp add: triangles_between_empty)
next
  case (Suc n)
  then have ih: "f 0 \<le> f n"
    "concat (map (\<lambda>c. triangles_between idx (f c) (f (Suc c))) [0..<n]) = triangles_between idx (f 0) (f n)"
    by simp_all
  have st: "f n \<le> f (Suc n)" using Suc.prems by simp
  have "concat (map (\<lambda>c. triangles_between idx (f c) (f (Suc c))) [0..<Suc n])
      = triangles_between idx (f 0) (f n) @ triangles_between idx (f n) (f (Suc n))"
    by (simp add: ih(2))
  also have "\<dots> = triangles_between idx (f 0) (f (Suc n))"
    using ih(1) st by (rule triangles_between_append)
  finally show ?case using ih(1) st by simp
qed

lemma mset_concat_map:
  "mset (concat (map g xs)) = (\<Sum>x \<in># mset xs. mset (g x))"
  by (induction xs) simp_all

lemma mset_concat_perm:
  assumes "mset xs = mset ys"
  shows "mset (concat (map g xs)) = mset (concat (map g ys))"
  by (simp only: mset_concat_map assms)

lemma triangles_of_flatten_gen:
  assumes "take (3 * length ts) (drop (3 * k) buf) = flatten_triangles ts"
  shows "triangles_between buf k (k + length ts) = ts"
  using assms
proof (induction ts arbitrary: k)
  case Nil
  then show ?case by (simp add: triangles_between_empty)
next
  case (Cons t ts)
  obtain a b c where t: "t = (a, b, c)" by (cases t)
  let ?ys = "drop (3 * k) buf"
  let ?m = "3 * length (t # ts)"
  have tk: "take ?m ?ys = a # b # c # flatten_triangles ts"
    using Cons.prems by (simp add: t)
  have ys: "?ys = (a # b # c # flatten_triangles ts) @ drop ?m ?ys"
    using append_take_drop_id [of ?m ?ys] by (simp only: tk)
  have l: "3 * k + 2 < length buf"
  proof -
    have "length (take ?m ?ys) = 3 + 3 * length ts"
      by (simp only: tk) (simp add: length_flatten_triangles)
    then show ?thesis by simp
  qed
  have n0: "buf ! (3 * k) = a" and n1: "buf ! Suc (3 * k) = b" and n2: "buf ! Suc (Suc (3 * k)) = c"
  proof -
    have "?ys ! 0 = a" "?ys ! 1 = b" "?ys ! 2 = c"
      by (subst ys, simp)+
    then show "buf ! (3 * k) = a" "buf ! Suc (3 * k) = b" "buf ! Suc (Suc (3 * k)) = c"
      using l by simp_all
  qed
  have "drop 3 ?ys = flatten_triangles ts @ drop ?m ?ys"
    by (subst ys) simp
  then have "take (3 * length ts) (drop 3 ?ys) = flatten_triangles ts"
    by (simp add: length_flatten_triangles)
  moreover have "drop 3 ?ys = drop (3 * (k + 1)) buf"
    by (simp add: add.commute)
  ultimately have "take (3 * length ts) (drop (3 * (k + 1)) buf) = flatten_triangles ts"
    by simp
  then have ih: "triangles_between buf (k + 1) (k + 1 + length ts) = ts"
    by (rule Cons.IH)
  have "triangles_between buf k (k + length (t # ts))
      = triangle_at buf k # triangles_between buf (Suc k) (k + length (t # ts))"
    by (rule triangles_between_step) simp
  then show ?case
    using ih by (simp add: triangle_at_def n0 n1 n2 t)
qed

lemma triangles_of_flatten:
  assumes "take (3 * length ts) buf = flatten_triangles ts"
  shows "triangles_between buf 0 (length ts) = ts"
  using triangles_of_flatten_gen [of ts 0 buf] assms by simp

lemma triangles_between_take:
  assumes "e * 3 \<le> n"
  shows "triangles_between (take n xs) i e = triangles_between xs i e"
  using assms by (auto simp: triangles_between_def triangle_at_def)

lemma valid_indices_take:
  assumes "valid_indices xs n vc"
  shows "valid_indices (take n xs) n vc"
  using assms by (simp add: valid_indices_def)

lemma sorted_order:
  assumes perm: "mset srt = mset sd"
    and cf: "map cluster sd = map of_nat [0..<sc]"
    and small: "sc < 2 ^ 32"
  shows "mset (map (\<lambda>s. unat (cluster s)) srt) = mset [0..<sc]"
    and "length srt = sc"
    and "\<forall>k < sc. unat (cluster (srt ! k)) < sc"
proof -
  have "\<forall>x \<in> set [0..<sc]. x < 2 ^ 32" using small by simp
  then have m: "map unat (map of_nat [0..<sc] :: u32 list) = [0..<sc]"
    by (rule map_unat_of_nat)
  have "mset (map (\<lambda>s. unat (cluster s)) srt) = image_mset (\<lambda>s. unat (cluster s)) (mset srt)"
    by simp
  also have "\<dots> = image_mset (\<lambda>s. unat (cluster s)) (mset sd)"
    by (simp only: perm)
  also have "\<dots> = mset (map unat (map cluster sd))"
    by (simp add: comp_def)
  also have "\<dots> = mset [0..<sc]"
    by (simp only: cf m)
  finally show 1: "mset (map (\<lambda>s. unat (cluster s)) srt) = mset [0..<sc]" .
  have "length srt = length sd" using perm by (rule mset_eq_length)
  also have "\<dots> = length (map cluster sd)" by simp
  also have "\<dots> = sc" by (simp only: cf) simp
  finally show 2: "length srt = sc" .
  show "\<forall>k < sc. unat (cluster (srt ! k)) < sc"
  proof (intro allI impI)
    fix k assume k: "k < sc"
    then have "map (\<lambda>s. unat (cluster s)) srt ! k \<in> set (map (\<lambda>s. unat (cluster s)) srt)"
      using 2 by (intro nth_mem) simp
    then have "unat (cluster (srt ! k)) \<in> set_mset (mset (map (\<lambda>s. unat (cluster s)) srt))"
      using k 2 by simp
    then have "unat (cluster (srt ! k)) \<in> set [0..<sc]"
      by (simp only: 1 set_mset_mset)
    then show "unat (cluster (srt ! k)) < sc" by simp
  qed
qed

text \<open>
  C1. For every valid input (index count divisible by 3, stride within bounds, cache size at
  least 3, every index below the vertex count) \<open>meshopt_optimizeOverdraw\<close> returns, having
  written exactly the first \<open>index_count\<close> entries of the destination buffer (its length,
  the entries beyond \<open>index_count\<close> and every other buffer are as before), and the triangles of
  the output, as ordered triples \<open>destination[3i..3i+2]\<close>, are a permutation of the triangles
  of the input: the multisets are equal. This holds whether or not \<open>destination\<close> is the
  input buffer itself, for any float semantics and for any \<open>std::sort\<close> that permutes its
  input. The buffers are assumed as large as the interface requires, and the index count to
  fit in \<open>unsigned int\<close>, in which the code computes cluster boundaries times 3.
\<close>

theorem optimizeOverdraw_permutes_triangles:
  assumes m3: "index_count mod 3 = 0"
    and stride: "0 < vertex_positions_stride" "vertex_positions_stride \<le> 256"
      "vertex_positions_stride mod 4 = 0"
    and cache: "3 \<le> cache_size"
    and valid: "valid_indices (mem indices) index_count vertex_count"
    and room: "index_count \<le> length (mem destination)"
    and positions: "\<forall>u < vertex_count. (vertex_positions_stride div 4) * u + 2 < length vertex_positions"
    and sort: "\<forall>xs. mset (std_sort xs) = mset xs"
    and small: "index_count < 2 ^ 32"
  shows "\<exists>mem'.
      meshopt_optimizeOverdraw F std_sort mem destination indices index_count vertex_positions
        vertex_count vertex_positions_stride cache_size threshold = Some mem'
    \<and> length (mem' destination) = length (mem destination)
    \<and> drop index_count (mem' destination) = drop index_count (mem destination)
    \<and> (\<forall>p. p \<noteq> destination \<longrightarrow> mem' p = mem p)
    \<and> mset (triangles (mem' destination) index_count) = mset (triangles (mem indices) index_count)"
proof (cases "index_count = 0 \<or> vertex_count = 0")
  case True
  have res: "meshopt_optimizeOverdraw F std_sort mem destination indices index_count vertex_positions
        vertex_count vertex_positions_stride cache_size threshold = Some mem"
    using m3 stride cache True by (simp add: meshopt_optimizeOverdraw_def)
  have "index_count = 0"
  proof (rule ccontr)
    assume "index_count \<noteq> 0"
    then have "0 < index_count" by simp
    then have "unat (mem indices ! 0) < vertex_count" using valid by (intro valid_indices_nth)
    then show False using True \<open>index_count \<noteq> 0\<close> by simp
  qed
  then have "triangles (mem destination) index_count = triangles (mem indices) index_count"
    by (simp add: triangles_def triangles_between_def)
  with res show ?thesis by simp
next
  case False
  let ?T = "index_count div 3"
  have T3: "?T * 3 = index_count" using m3 by auto
  have n3: "3 \<le> index_count" using False m3 by presburger
  have d3: "3 dvd index_count" using m3 by presburger
  have "?T \<le> index_count" by (rule div_le_dividend)
  then have Tsmall: "?T < 2 ^ 32" using small by (rule le_less_trans)
  define src where "src = (if destination = indices
      then Snapshot (take index_count (mem indices)) else Caller indices)"
  let ?idx = "source_buffer mem src"
  have ilen: "index_count \<le> length (mem indices)" using valid by (simp add: valid_indices_def)
  have srcv: "(if destination = indices
       then assert_that (index_count \<le> length (mem indices)) \<bind>
            (\<lambda>_. Some (Snapshot (take index_count (mem indices))))
       else Some (Caller indices)) = Some src"
    using ilen by (simp add: src_def)
  have v: "valid_indices ?idx index_count vertex_count"
    using valid by (simp add: src_def valid_indices_take)
  have s2: "\<forall>p. src = Caller p \<longrightarrow> p \<noteq> destination"
    by (simp add: src_def)
  have tri_idx: "triangles_between ?idx 0 ?T = triangles_between (mem indices) 0 ?T"
    using T3 by (simp add: src_def triangles_between_take)
  have idxl: "?T * 3 \<le> length ?idx"
    using T3 ilen by (simp add: src_def)
  obtain hard hc soft sc where
    gh: "generateHardBoundaries (replicate ?T 0) ?idx index_count vertex_count cache_size
        = Some (hard, hc)"
    and gs: "generateSoftBoundaries F (replicate (?T + 1) 0) ?idx index_count vertex_count hard hc
          cache_size threshold = Some (soft, sc)"
    and hc1: "1 \<le> hc" and hcsc: "hc \<le> sc" and scT: "sc \<le> ?T"
    and ok: "boundaries_ok (take sc soft) ?T"
    and s0: "soft ! 0 = 0"
    and ls: "length soft = length (replicate (?T + 1) (0 :: u32))"
    using generate_boundaries [OF n3 v Tsmall, of "replicate ?T 0" "replicate (?T + 1) 0"
        cache_size F threshold]
    by auto
  have cl: "sc \<le> length soft" using scT ls by simp
  have sc1: "0 < sc" using hc1 hcsc by arith
  have scsmall: "sc < 2 ^ 32" using scT Tsmall by arith
  let ?init = "\<lparr>cluster = 0, dot_product = f_of_int F 0\<rparr>"
  obtain sd where
    csd: "calculateSortData F (replicate sc ?init) ?idx index_count vertex_positions
        vertex_positions_stride soft sc = Some sd"
    and cf: "map cluster sd = map of_nat [0..<sc]"
    using calculateSortData_char [OF v positions cl ok d3 small, of "replicate sc ?init" F]
    by auto
  let ?sorted = "std_sort sd"
  have perm: "mset ?sorted = mset sd" using sort by simp
  let ?order = "map (\<lambda>s. unat (cluster s)) ?sorted"
  have om: "mset ?order = mset [0..<sc]"
    and sl: "length ?sorted = sc"
    and ord: "\<forall>k < sc. unat (cluster (?sorted ! k)) < sc"
    using sorted_order [OF perm cf scsmall] by simp_all
  let ?cs = "cluster_start soft sc index_count"
  let ?ct = "cluster_triangles ?idx soft sc index_count"
  let ?out = "concat (map ?ct (drop 0 ?order))"
  have mono: "\<forall>c < sc. ?cs c \<le> ?cs (Suc c)"
    using cluster_start_less [OF cl ok] by (auto simp: less_imp_le)
  have cs0: "?cs 0 = 0" using sc1 s0 by (simp add: cluster_start_def)
  have csn: "?cs sc = ?T" by (simp add: cluster_start_def)
  have ct_eq: "?ct = (\<lambda>c. triangles_between ?idx (?cs c) (?cs (Suc c)))"
    by (simp add: cluster_triangles_def fun_eq_iff)
  have "concat (map ?ct [0..<sc]) = triangles_between ?idx (?cs 0) (?cs sc)"
    using concat_ranges [OF mono, of ?idx] by (simp only: ct_eq)
  then have all: "concat (map ?ct [0..<sc]) = triangles_between ?idx 0 ?T"
    by (simp only: cs0 csn)
  have mout: "mset ?out = mset (triangles_between ?idx 0 ?T)"
    using mset_concat_perm [OF om, of ?ct] by (simp only: all drop_0)
  have lout: "length ?out = ?T"
    using mset_eq_length [OF mout] by simp
  have cap: "0 + 3 * length ?out \<le> length (mem destination)"
    unfolding lout using room T3 by arith
  obtain mem' where
    ccl: "copy_cluster_loop ?sorted soft sc index_count src destination 0 (mem, 0)
        = Some (mem', 0 + 3 * length ?out)"
    and frame: "\<forall>p. p \<noteq> destination \<longrightarrow> mem' p = mem p"
    and len: "length (mem' destination) = length (mem destination)"
    and tk: "take (0 + 3 * length ?out) (mem' destination)
        = take 0 (mem destination) @ flatten_triangles ?out"
    and dr: "drop (0 + 3 * length ?out) (mem' destination) = drop (0 + 3 * length ?out) (mem destination)"
    using copy_cluster_loop_char [OF refl s2 idxl sl ord cl ok scsmall cap] by blast
  have off: "0 + 3 * length ?out = index_count"
    unfolding lout using T3 by arith
  have ccl': "copy_cluster_loop ?sorted soft sc index_count src destination 0 (mem, 0)
        = Some (mem', index_count)"
    using ccl by (simp only: off)
  have res: "meshopt_optimizeOverdraw F std_sort mem destination indices index_count vertex_positions
        vertex_count vertex_positions_stride cache_size threshold = Some mem'"
    using m3 stride cache False srcv gh gs csd ccl'
    by (simp add: meshopt_optimizeOverdraw_def Let_def)
  have "take (3 * length ?out) (mem' destination) = flatten_triangles ?out"
    using tk by simp
  then have "triangles_between (mem' destination) 0 (length ?out) = ?out"
    by (rule triangles_of_flatten)
  then have "triangles (mem' destination) index_count = ?out"
    by (simp only: lout triangles_def)
  then have "mset (triangles (mem' destination) index_count) = mset (triangles (mem indices) index_count)"
    by (simp only: mout tri_idx triangles_def)
  moreover have "drop index_count (mem' destination) = drop index_count (mem destination)"
    using dr by (simp only: off)
  ultimately show ?thesis
    using res len frame by blast
qed

theorem optimizeOverdraw_permutes_triangles_witness:
  "\<exists>mem'.
      meshopt_optimizeOverdraw exact_ops sort_descending
        (\<lambda>p. if p = 0 then [9, 9, 9, 9, 9, 9, 9] else [0, 1, 2, 2, 1, 3]) 0 1 6
        [0, 0, 0, 1, 0, 0, 0, 1, 0, 1, 1, 0] 4 12 16 1 = Some mem'
    \<and> length (mem' 0) = length ((\<lambda>p. if p = 0 then [9, 9, 9, 9, 9, 9, 9] else [0, 1, 2, 2, 1, 3 :: u32]) (0 :: nat))
    \<and> drop 6 (mem' 0) = drop 6 ((\<lambda>p. if p = 0 then [9, 9, 9, 9, 9, 9, 9] else [0, 1, 2, 2, 1, 3 :: u32]) (0 :: nat))
    \<and> (\<forall>p. p \<noteq> 0 \<longrightarrow> mem' p = (if p = 0 then [9, 9, 9, 9, 9, 9, 9] else [0, 1, 2, 2, 1, 3]))
    \<and> mset (triangles (mem' 0) 6)
        = mset (triangles ((\<lambda>p. if p = 0 then [9, 9, 9, 9, 9, 9, 9] else [0, 1, 2, 2, 1, 3 :: u32]) (1 :: nat)) 6)"
proof -
  let ?mem = "\<lambda>p :: nat. if p = 0 then [9, 9, 9, 9, 9, 9, 9] else [0, 1, 2, 2, 1, 3 :: u32]"
  have v: "valid_indices (?mem 1) 6 4"
    by (simp add: valid_indices_def)
  have r: "6 \<le> length (?mem 0)" by simp
  have p: "\<forall>u < 4. (12 div 4) * u + 2 < length [0, 0, 0, 1, 0, 0, 0, 1, 0, 1, 1, 0 :: real]"
    by auto
  have s: "\<forall>xs. mset (sort_descending xs) = mset xs"
    by (simp add: sort_descending_def)
  show ?thesis
    using optimizeOverdraw_permutes_triangles [of 6 12 16 ?mem 1 4 0
        "[0, 0, 0, 1, 0, 0, 0, 1, 0, 1, 1, 0]" sort_descending exact_ops 1, OF _ _ _ _ _ v r p s]
    by simp
qed

subsection \<open>The cluster score\<close>

text \<open>
  C8. In the cluster scorer the two divisions, by the total area of the cluster and by the
  length of its normal, are guarded. Let \<open>d\<close> be any division that agrees with the float
  division wherever the divisor is not zero, and is arbitrary where it is: the score computed
  with \<open>d\<close> is the dot product of (scaled centroid - mesh centroid) with the scaled normal,
  where each scale factor is the inverse when the quantity is not zero and zero when it is.
  So the score never depends on the outcome of a division by zero, and a cluster of zero area
  or zero normal has the corresponding term multiplied by zero.
\<close>

theorem cluster_score_division_guarded:
  assumes "\<forall>x y. \<not> f_eq F y (f_of_int F 0) \<longrightarrow> d x y = f_div F x y"
  shows "cluster_score (F\<lparr>f_div := d\<rparr>) mesh_centroid (cluster_area, cluster_centroid, cluster_normal)
    = dot_score F mesh_centroid
        (scale3 F cluster_centroid (inverse_or_zero F cluster_area))
        (scale3 F cluster_normal (inverse_or_zero F (norm3 F cluster_normal)))"
proof -
  obtain m0 m1 m2 where m: "mesh_centroid = (m0, m1, m2)" by (cases mesh_centroid)
  obtain c0 c1 c2 where c: "cluster_centroid = (c0, c1, c2)" by (cases cluster_centroid)
  obtain n0 n1 n2 where n: "cluster_normal = (n0, n1, n2)" by (cases cluster_normal)
  show ?thesis
    using assms
    by (simp add: m c n cluster_score_def dot_score_def scale3_def norm3_def inverse_or_zero_def
        Let_def)
qed

theorem cluster_score_division_guarded_witness:
  "cluster_score (exact_ops\<lparr>f_div := (\<lambda>x y. if y = 0 then 42 else x / y)\<rparr>) (1, 1, 1)
      (0, (1, 2, 3), (0, 0, 0))
    = dot_score exact_ops (1, 1, 1)
        (scale3 exact_ops (1, 2, 3) (inverse_or_zero exact_ops 0))
        (scale3 exact_ops (0, 0, 0) (inverse_or_zero exact_ops (norm3 exact_ops (0, 0, 0))))"
proof -
  have "\<forall>x y. \<not> f_eq exact_ops y (f_of_int exact_ops 0)
      \<longrightarrow> (if y = 0 then 42 else x / y) = f_div exact_ops x y"
    by (simp add: exact_ops_def)
  then show ?thesis
    by (rule cluster_score_division_guarded)
qed

end
